theory Spec2Isabelle
  imports Main "HOL-Library.Word"
begin

section \<open>Configuration and types (event.h)\<close>

text \<open>
  The configuration macros of \<^verbatim>\<open>event.h\<close>. All of them are small positive constants
  that the C code uses as array bounds and loop limits.
\<close>

definition EVENT_MAX_COUNT :: nat where
  "EVENT_MAX_COUNT = 32"

definition EVENT_SUBSCRIBER_MAX :: nat where
  "EVENT_SUBSCRIBER_MAX = 8"

definition EVENT_OBSERVER_MAX :: nat where
  "EVENT_OBSERVER_MAX = 4"

definition EVENT_QUEUE_SIZE :: nat where
  "EVENT_QUEUE_SIZE = 64"

definition EVENT_DATA_SIZE_MAX :: nat where
  "EVENT_DATA_SIZE_MAX = 32"

named_theorems cfg \<open>values of the configuration macros\<close>

declare EVENT_MAX_COUNT_def [cfg]
declare EVENT_SUBSCRIBER_MAX_def [cfg]
declare EVENT_OBSERVER_MAX_def [cfg]
declare EVENT_QUEUE_SIZE_def [cfg]
declare EVENT_DATA_SIZE_MAX_def [cfg]

type_synonym u8 = "8 word"
type_synonym u16 = "16 word"
type_synonym u32 = "32 word"

text \<open>
  \<^verbatim>\<open>Event_t\<close>: \<^verbatim>\<open>Event_Type_t\<close> is \<^verbatim>\<open>uint16_t\<close>, \<^verbatim>\<open>Event_Priority_t\<close> is \<^verbatim>\<open>uint8_t\<close>;
  \<open>data\<close> is the inline array of \<^verbatim>\<open>EVENT_DATA_SIZE_MAX\<close> bytes.
\<close>

record Event_t =
  type :: u16
  priority :: u8
  timestamp :: u32
  data_size :: u8
  data :: "u8 list"

text \<open>
  Function pointers and \<^verbatim>\<open>void*\<close> arguments are opaque addresses; \<open>0\<close> is \<^verbatim>\<open>NULL\<close>.
  \<^verbatim>\<open>Subscriber_t\<close> and \<^verbatim>\<open>Observer_t\<close> are two declarations of the same three fields,
  so one record serves both.
\<close>

type_synonym EventCallback_t = nat
type_synonym ptr = nat

record Slot_t =
  callback :: EventCallback_t
  arg :: ptr
  used :: bool

type_synonym Subscriber_t = Slot_t
type_synonym Observer_t = Slot_t

text \<open>
  \<^verbatim>\<open>EventQueue_t\<close>. The three \<^verbatim>\<open>uint16_t\<close> counters are naturals: \<open>count\<close> is only
  incremented below \<^verbatim>\<open>EVENT_QUEUE_SIZE\<close> and only decremented when non-zero, and
  \<^verbatim>\<open>(x + 1) % EVENT_QUEUE_SIZE\<close> is computed in \<^verbatim>\<open>int\<close>, so none of them can wrap.
\<close>

record EventQueue_t =
  queue :: "Event_t list"
  head :: nat
  tail :: nat
  count :: nat

text \<open>The file-scope state of \<^verbatim>\<open>event.c\<close>.\<close>

record bus =
  g_queue :: EventQueue_t
  g_subscribers :: "Subscriber_t list list"
  g_observers :: "Observer_t list"
  g_initialized :: bool

section \<open>Zeroed storage\<close>

text \<open>What \<^verbatim>\<open>memset(.., 0, ..)\<close> and static zero-initialisation leave behind.\<close>

definition zero_event :: Event_t where
  "zero_event = \<lparr>type = 0, priority = 0, timestamp = 0, data_size = 0,
     data = replicate EVENT_DATA_SIZE_MAX 0\<rparr>"

definition zero_slot :: Slot_t where
  "zero_slot = \<lparr>callback = 0, arg = 0, used = False\<rparr>"

definition zero_subscribers :: "Subscriber_t list list" where
  "zero_subscribers = replicate EVENT_MAX_COUNT (replicate EVENT_SUBSCRIBER_MAX zero_slot)"

definition zero_observers :: "Observer_t list" where
  "zero_observers = replicate EVENT_OBSERVER_MAX zero_slot"

section \<open>The event queue\<close>

definition queue_init :: EventQueue_t where
  "queue_init = \<lparr>queue = replicate EVENT_QUEUE_SIZE zero_event, head = 0, tail = 0, count = 0\<rparr>"

definition queue_push :: "Event_t \<Rightarrow> EventQueue_t \<Rightarrow> int \<times> EventQueue_t" where
  "queue_push e q =
     (if count q \<ge> EVENT_QUEUE_SIZE then (- 1, q)
      else (0, q\<lparr>queue := (queue q)[tail q := e],
                 tail := (tail q + 1) mod EVENT_QUEUE_SIZE,
                 count := count q + 1\<rparr>))"

text \<open>
  \<^verbatim>\<open>queue_pop\<close> returns a pointer into the queue's own storage, not a copy: the result is
  the index of the slot (\<open>None\<close> for \<^verbatim>\<open>NULL\<close>).
\<close>

definition queue_pop :: "EventQueue_t \<Rightarrow> nat option \<times> EventQueue_t" where
  "queue_pop q =
     (if count q = 0 then (None, q)
      else (Some (head q), q\<lparr>head := (head q + 1) mod EVENT_QUEUE_SIZE,
                             count := count q - 1\<rparr>))"

definition queue_is_empty :: "EventQueue_t \<Rightarrow> bool" where
  "queue_is_empty q = (count q = 0)"

definition queue_get_count :: "EventQueue_t \<Rightarrow> nat" where
  "queue_get_count q = count q"

section \<open>Public functions that do not call handlers\<close>

text \<open>The state before \<^verbatim>\<open>main\<close> runs: every static object is zero.\<close>

definition bus0 :: bus where
  "bus0 = \<lparr>g_queue = queue_init, g_subscribers = zero_subscribers,
     g_observers = zero_observers, g_initialized = False\<rparr>"

definition EVENT_Init :: "bus \<Rightarrow> int \<times> bus" where
  "EVENT_Init s = (0, \<lparr>g_queue = queue_init, g_subscribers = zero_subscribers,
     g_observers = zero_observers, g_initialized = True\<rparr>)"

text \<open>
  The \<^verbatim>\<open>for\<close> loops of the registry functions return at the first slot that passes their
  test: \<open>find\<close> over the slot indices in ascending order.
\<close>

definition EVENT_Subscribe :: "u16 \<Rightarrow> EventCallback_t \<Rightarrow> ptr \<Rightarrow> bus \<Rightarrow> int \<times> bus" where
  "EVENT_Subscribe t cb a s =
     (if \<not> g_initialized s \<or> unat t \<ge> EVENT_MAX_COUNT \<or> cb = 0 then (- 1, s)
      else case find (\<lambda>i. \<not> used (g_subscribers s ! unat t ! i)) [0..<EVENT_SUBSCRIBER_MAX] of
        Some i \<Rightarrow> (0, s\<lparr>g_subscribers := (g_subscribers s)
                     [unat t := (g_subscribers s ! unat t)
                        [i := \<lparr>callback = cb, arg = a, used = True\<rparr>]]\<rparr>)
      | None \<Rightarrow> (- 1, s))"

definition EVENT_Unsubscribe :: "u16 \<Rightarrow> EventCallback_t \<Rightarrow> ptr \<Rightarrow> bus \<Rightarrow> int \<times> bus" where
  "EVENT_Unsubscribe t cb a s =
     (if \<not> g_initialized s \<or> unat t \<ge> EVENT_MAX_COUNT \<or> cb = 0 then (- 1, s)
      else case find (\<lambda>i. used (g_subscribers s ! unat t ! i) \<and>
                          callback (g_subscribers s ! unat t ! i) = cb \<and>
                          arg (g_subscribers s ! unat t ! i) = a) [0..<EVENT_SUBSCRIBER_MAX] of
        Some i \<Rightarrow> (0, s\<lparr>g_subscribers := (g_subscribers s)
                     [unat t := (g_subscribers s ! unat t)
                        [i := (g_subscribers s ! unat t ! i)\<lparr>used := False\<rparr>]]\<rparr>)
      | None \<Rightarrow> (- 1, s))"

text \<open>
  The record that \<^verbatim>\<open>EVENT_Publish\<close> builds on its stack: zeroed, then filled in. The
  caller's buffer is \<open>Some bytes\<close> (\<open>None\<close> for a \<^verbatim>\<open>NULL\<close> pointer) and must hold at least
  \<open>data_size\<close> bytes, as \<^verbatim>\<open>memcpy\<close> requires; \<open>now\<close> is what \<^verbatim>\<open>get_time_ms()\<close> returns.
\<close>

definition make_event :: "u16 \<Rightarrow> u8 \<Rightarrow> u8 list option \<Rightarrow> u8 \<Rightarrow> u32 \<Rightarrow> Event_t" where
  "make_event t p d n now =
     (let event = zero_event\<lparr>type := t, priority := p, timestamp := now\<rparr>
      in case d of
           Some bytes \<Rightarrow>
             if unat n > 0
             then event\<lparr>data_size := n,
                        data := take (unat n) bytes @ drop (unat n) (data event)\<rparr>
             else event
         | None \<Rightarrow> event)"

definition EVENT_Publish ::
  "u16 \<Rightarrow> u8 \<Rightarrow> u8 list option \<Rightarrow> u8 \<Rightarrow> u32 \<Rightarrow> bus \<Rightarrow> int \<times> bus" where
  "EVENT_Publish t p d n now s =
     (if \<not> g_initialized s \<or> unat t \<ge> EVENT_MAX_COUNT then (- 1, s)
      else if d \<noteq> None \<and> unat n > EVENT_DATA_SIZE_MAX then (- 1, s)
      else case queue_push (make_event t p d n now) (g_queue s) of
             (r, q) \<Rightarrow> if r \<noteq> 0 then (- 1, s) else (0, s\<lparr>g_queue := q\<rparr>))"

definition EVENT_ClearQueue :: "bus \<Rightarrow> int \<times> bus" where
  "EVENT_ClearQueue s = (0, s\<lparr>g_queue := queue_init\<rparr>)"

definition EVENT_GetCount :: "bus \<Rightarrow> nat" where
  "EVENT_GetCount s = queue_get_count (g_queue s)"

definition EVENT_RegisterObserver :: "EventCallback_t \<Rightarrow> ptr \<Rightarrow> bus \<Rightarrow> int \<times> bus" where
  "EVENT_RegisterObserver cb a s =
     (if \<not> g_initialized s \<or> cb = 0 then (- 1, s)
      else case find (\<lambda>i. \<not> used (g_observers s ! i)) [0..<EVENT_OBSERVER_MAX] of
        Some i \<Rightarrow> (0, s\<lparr>g_observers := (g_observers s)
                     [i := \<lparr>callback = cb, arg = a, used = True\<rparr>]\<rparr>)
      | None \<Rightarrow> (- 1, s))"

definition EVENT_UnregisterObserver :: "EventCallback_t \<Rightarrow> bus \<Rightarrow> int \<times> bus" where
  "EVENT_UnregisterObserver cb s =
     (if \<not> g_initialized s \<or> cb = 0 then (- 1, s)
      else case find (\<lambda>i. used (g_observers s ! i) \<and> callback (g_observers s ! i) = cb)
                  [0..<EVENT_OBSERVER_MAX] of
        Some i \<Rightarrow> (0, s\<lparr>g_observers := (g_observers s)
                     [i := (g_observers s ! i)\<lparr>used := False\<rparr>]\<rparr>)
      | None \<Rightarrow> (- 1, s))"

section \<open>Handlers and dispatch\<close>

text \<open>
  A handler is C code outside \<^verbatim>\<open>event.c\<close>. The bus state is \<^verbatim>\<open>static\<close>, so all a handler
  can do to it is call the public functions: its behaviour, as far as the bus is
  concerned, is the list of calls it makes, which may depend on the record it is shown
  and on its argument. A call of the handler is recorded as the callback, the record as
  the handler finds it behind the pointer, and the argument. A handler that writes to
  the record through the pointer it is given is outside this model.
\<close>

datatype api_call =
    Init
  | Subscribe u16 EventCallback_t ptr
  | Unsubscribe u16 EventCallback_t ptr
  | Publish u16 u8 "u8 list option" u8 u32
  | Process
  | ClearQueue
  | GetCount
  | RegisterObserver EventCallback_t ptr
  | UnregisterObserver EventCallback_t

type_synonym handlers = "EventCallback_t \<Rightarrow> Event_t \<Rightarrow> ptr \<Rightarrow> api_call list"

type_synonym invocation = "EventCallback_t \<times> Event_t \<times> ptr"

text \<open>
  One public call: return value, new state, handler invocations it caused. \<open>None\<close> is a
  call that does not return. Only \<^verbatim>\<open>EVENT_Process\<close> can fail to return, so it is a
  parameter here and defined below.
\<close>

definition api_step ::
  "(bus \<Rightarrow> (int \<times> bus \<times> invocation list) option) \<Rightarrow> api_call \<Rightarrow> bus \<Rightarrow>
     (int \<times> bus \<times> invocation list) option" where
  "api_step proc c s =
     (case c of
        Init \<Rightarrow> Some (fst (EVENT_Init s), snd (EVENT_Init s), [])
      | Subscribe t cb a \<Rightarrow>
          Some (fst (EVENT_Subscribe t cb a s), snd (EVENT_Subscribe t cb a s), [])
      | Unsubscribe t cb a \<Rightarrow>
          Some (fst (EVENT_Unsubscribe t cb a s), snd (EVENT_Unsubscribe t cb a s), [])
      | Publish t p d n now \<Rightarrow>
          Some (fst (EVENT_Publish t p d n now s), snd (EVENT_Publish t p d n now s), [])
      | Process \<Rightarrow> proc s
      | ClearQueue \<Rightarrow> Some (fst (EVENT_ClearQueue s), snd (EVENT_ClearQueue s), [])
      | GetCount \<Rightarrow> Some (int (EVENT_GetCount s), s, [])
      | RegisterObserver cb a \<Rightarrow>
          Some (fst (EVENT_RegisterObserver cb a s), snd (EVENT_RegisterObserver cb a s), [])
      | UnregisterObserver cb \<Rightarrow>
          Some (fst (EVENT_UnregisterObserver cb s), snd (EVENT_UnregisterObserver cb s), []))"

fun run_calls ::
  "(bus \<Rightarrow> (int \<times> bus \<times> invocation list) option) \<Rightarrow> api_call list \<Rightarrow> bus \<Rightarrow>
     (bus \<times> invocation list) option" where
  "run_calls proc [] s = Some (s, [])"
| "run_calls proc (c # cs) s =
     (case api_step proc c s of
        None \<Rightarrow> None
      | Some (r, s1, t1) \<Rightarrow>
          (case run_calls proc cs s1 of
             None \<Rightarrow> None
           | Some (s2, t2) \<Rightarrow> Some (s2, t1 @ t2)))"

text \<open>
  \<^verbatim>\<open>slot.callback(event, slot.arg)\<close>, where \<open>e\<close> is the index of the queue slot that
  \<^verbatim>\<open>event\<close> points to.
\<close>

definition invoke ::
  "(bus \<Rightarrow> (int \<times> bus \<times> invocation list) option) \<Rightarrow> handlers \<Rightarrow> Slot_t \<Rightarrow> nat \<Rightarrow> bus \<Rightarrow>
     (bus \<times> invocation list) option" where
  "invoke proc env sl e s =
     (let ev = queue (g_queue s) ! e
      in case run_calls proc (env (callback sl) ev (arg sl)) s of
           None \<Rightarrow> None
         | Some (s1, t1) \<Rightarrow> Some (s1, (callback sl, ev, arg sl) # t1))"

text \<open>
  The two loops of \<^verbatim>\<open>dispatch_event\<close>, over the slot indices still to visit. Each
  iteration reads \<^verbatim>\<open>event->type\<close> and the slot afresh from the current state.
\<close>

fun subscriber_loop ::
  "(bus \<Rightarrow> (int \<times> bus \<times> invocation list) option) \<Rightarrow> handlers \<Rightarrow> nat \<Rightarrow> nat list \<Rightarrow> bus \<Rightarrow>
     (bus \<times> invocation list) option" where
  "subscriber_loop proc env e [] s = Some (s, [])"
| "subscriber_loop proc env e (i # is) s =
     (let sl = g_subscribers s ! unat (type (queue (g_queue s) ! e)) ! i
      in if used sl
         then (case invoke proc env sl e s of
                 None \<Rightarrow> None
               | Some (s1, t1) \<Rightarrow>
                   (case subscriber_loop proc env e is s1 of
                      None \<Rightarrow> None
                    | Some (s2, t2) \<Rightarrow> Some (s2, t1 @ t2)))
         else subscriber_loop proc env e is s)"

fun observer_loop ::
  "(bus \<Rightarrow> (int \<times> bus \<times> invocation list) option) \<Rightarrow> handlers \<Rightarrow> nat \<Rightarrow> nat list \<Rightarrow> bus \<Rightarrow>
     (bus \<times> invocation list) option" where
  "observer_loop proc env e [] s = Some (s, [])"
| "observer_loop proc env e (i # is) s =
     (let sl = g_observers s ! i
      in if used sl
         then (case invoke proc env sl e s of
                 None \<Rightarrow> None
               | Some (s1, t1) \<Rightarrow>
                   (case observer_loop proc env e is s1 of
                      None \<Rightarrow> None
                    | Some (s2, t2) \<Rightarrow> Some (s2, t1 @ t2)))
         else observer_loop proc env e is s)"

definition dispatch_event ::
  "(bus \<Rightarrow> (int \<times> bus \<times> invocation list) option) \<Rightarrow> handlers \<Rightarrow> nat \<Rightarrow> bus \<Rightarrow>
     (bus \<times> invocation list) option" where
  "dispatch_event proc env e s =
     (case subscriber_loop proc env e [0..<EVENT_SUBSCRIBER_MAX] s of
        None \<Rightarrow> None
      | Some (s1, t1) \<Rightarrow>
          (case observer_loop proc env e [0..<EVENT_OBSERVER_MAX] s1 of
             None \<Rightarrow> None
           | Some (s2, t2) \<Rightarrow> Some (s2, t1 @ t2)))"

text \<open>
  The \<^verbatim>\<open>while\<close> loop of \<^verbatim>\<open>EVENT_Process\<close>. A handler may publish, so the loop need not
  end, and a handler may call \<^verbatim>\<open>EVENT_Process\<close> itself, so the recursion need not either:
  the first argument bounds the number of iterations, nested ones included, and running
  out of it is \<open>None\<close>. The nested call is \<^verbatim>\<open>EVENT_Process\<close> with what is left of the bound.
\<close>

fun process_loop ::
  "nat \<Rightarrow> handlers \<Rightarrow> int \<Rightarrow> bus \<Rightarrow> (int \<times> bus \<times> invocation list) option" where
  "process_loop 0 env cnt s = None"
| "process_loop (Suc n) env cnt s =
     (if queue_is_empty (g_queue s) then Some (cnt, s, [])
      else case queue_pop (g_queue s) of
             (None, q) \<Rightarrow> Some (cnt, s\<lparr>g_queue := q\<rparr>, [])
           | (Some e, q) \<Rightarrow>
               (case dispatch_event
                       (\<lambda>s'. if \<not> g_initialized s' then Some (0, s', [])
                             else process_loop n env 0 s')
                       env e (s\<lparr>g_queue := q\<rparr>) of
                  None \<Rightarrow> None
                | Some (s1, t1) \<Rightarrow>
                    (case process_loop n env (cnt + 1) s1 of
                       None \<Rightarrow> None
                     | Some (r, s2, t2) \<Rightarrow> Some (r, s2, t1 @ t2))))"

definition EVENT_Process ::
  "nat \<Rightarrow> handlers \<Rightarrow> bus \<Rightarrow> (int \<times> bus \<times> invocation list) option" where
  "EVENT_Process fuel env s =
     (if \<not> g_initialized s then Some (0, s, []) else process_loop fuel env 0 s)"

text \<open>A public call made by the application, with \<^verbatim>\<open>EVENT_Process\<close> filled in.\<close>

definition EVENT_call ::
  "nat \<Rightarrow> handlers \<Rightarrow> api_call \<Rightarrow> bus \<Rightarrow> (int \<times> bus \<times> invocation list) option" where
  "EVENT_call fuel env c s = api_step (EVENT_Process fuel env) c s"

text \<open>Handlers that never call back into the bus, like those of \<^verbatim>\<open>event_example.c\<close>.\<close>

definition quiet :: handlers where
  "quiet cb ev a = []"

section \<open>Notions used to state the properties\<close>

text \<open>
  The queue invariant: the counters are in range and the live region, \<open>count\<close> slots from
  \<open>head\<close> onwards modulo the capacity, ends where the next push writes.
\<close>

definition queue_inv :: "EventQueue_t \<Rightarrow> bool" where
  "queue_inv q =
     (count q \<le> EVENT_QUEUE_SIZE \<and> head q < EVENT_QUEUE_SIZE \<and> tail q < EVENT_QUEUE_SIZE \<and>
      tail q = (head q + count q) mod EVENT_QUEUE_SIZE)"

text \<open>The pending records, oldest first.\<close>

definition live_records :: "EventQueue_t \<Rightarrow> Event_t list" where
  "live_records q =
     map (\<lambda>k. queue q ! ((head q + k) mod EVENT_QUEUE_SIZE)) [0..<count q]"

text \<open>
  The arrays have their declared dimensions, and every stored record has a type that is a
  valid row index (\<^verbatim>\<open>dispatch_event\<close> indexes \<^verbatim>\<open>g_subscribers\<close> with it unchecked).
\<close>

definition wf_bus :: "bus \<Rightarrow> bool" where
  "wf_bus s =
     (length (queue (g_queue s)) = EVENT_QUEUE_SIZE \<and>
      list_all (\<lambda>e. unat (type e) < EVENT_MAX_COUNT) (queue (g_queue s)) \<and>
      length (g_subscribers s) = EVENT_MAX_COUNT \<and>
      list_all (\<lambda>row. length row = EVENT_SUBSCRIBER_MAX) (g_subscribers s) \<and>
      length (g_observers s) = EVENT_OBSERVER_MAX)"

text \<open>
  What the specification says one record's dispatch calls: every active subscriber slot
  of the record's type in ascending slot order, then every active observer slot in
  ascending slot order, each once, all read from the registry as it is in \<open>s\<close>.
\<close>

definition active_slots :: "Slot_t list \<Rightarrow> nat list" where
  "active_slots row = filter (\<lambda>i. used (row ! i)) [0..<length row]"

definition slot_call :: "Event_t \<Rightarrow> Slot_t \<Rightarrow> invocation" where
  "slot_call ev sl = (callback sl, ev, arg sl)"

definition fanout :: "bus \<Rightarrow> Event_t \<Rightarrow> invocation list" where
  "fanout s ev =
     map (\<lambda>i. slot_call ev (g_subscribers s ! unat (type ev) ! i))
       (active_slots (g_subscribers s ! unat (type ev))) @
     map (\<lambda>i. slot_call ev (g_observers s ! i)) (active_slots (g_observers s))"

text \<open>A run of \<^verbatim>\<open>EVENT_Publish\<close> calls with nothing in between, and their return values.\<close>

type_synonym publish_args = "u16 \<times> u8 \<times> u8 list option \<times> u8 \<times> u32"

fun publish_one :: "publish_args \<Rightarrow> bus \<Rightarrow> int \<times> bus" where
  "publish_one (t, p, d, n, now) s = EVENT_Publish t p d n now s"

fun event_of :: "publish_args \<Rightarrow> Event_t" where
  "event_of (t, p, d, n, now) = make_event t p d n now"

fun publish_seq :: "publish_args list \<Rightarrow> bus \<Rightarrow> int list \<times> bus" where
  "publish_seq [] s = ([], s)"
| "publish_seq (a # as) s =
     (case publish_one a s of
        (r, s1) \<Rightarrow> (case publish_seq as s1 of (rs, s2) \<Rightarrow> (r # rs, s2)))"

text \<open>A run of public calls made by the application, one after the other.\<close>

fun EVENT_calls ::
  "nat \<Rightarrow> handlers \<Rightarrow> api_call list \<Rightarrow> bus \<Rightarrow> (int list \<times> bus \<times> invocation list) option" where
  "EVENT_calls fuel env [] s = Some ([], s, [])"
| "EVENT_calls fuel env (c # cs) s =
     (case EVENT_call fuel env c s of
        None \<Rightarrow> None
      | Some (r, s1, t1) \<Rightarrow>
          (case EVENT_calls fuel env cs s1 of
             None \<Rightarrow> None
           | Some (rs, s2, t2) \<Rightarrow> Some (r # rs, s2, t1 @ t2)))"

text \<open>
  The handlers registered in \<open>s\<close> do not call back into the bus, whatever record they are
  shown: what the specification calls the non-re-entrant use the bus is designed for.
\<close>

definition silent :: "handlers \<Rightarrow> bus \<Rightarrow> bool" where
  "silent env s =
     (\<forall>sl ev. used sl \<and> (sl \<in> set (concat (g_subscribers s)) \<or> sl \<in> set (g_observers s))
        \<longrightarrow> env (callback sl) ev (arg sl) = [])"

text \<open>The queue once \<^verbatim>\<open>EVENT_Process\<close> has popped everything that was pending.\<close>

definition drained :: "bus \<Rightarrow> bus" where
  "drained s = s\<lparr>g_queue := (g_queue s)\<lparr>head := tail (g_queue s), count := 0\<rparr>\<rparr>"

text \<open>
  What a public call other than \<^verbatim>\<open>EVENT_Process\<close> returns and leaves behind; none of
  them invokes a handler.
\<close>

definition plain_step :: "api_call \<Rightarrow> bus \<Rightarrow> int \<times> bus" where
  "plain_step c s =
     (case api_step (\<lambda>_. None) c s of Some (r, s', t) \<Rightarrow> (r, s') | None \<Rightarrow> (0, s))"

text \<open>
  A small bus used to exercise the theorems: initialised, with callback 11 subscribed to
  type 1 (argument 0) and callback 99 registered as an observer (argument 0).
\<close>

definition demo_bus :: bus where
  "demo_bus = snd (EVENT_RegisterObserver 99 0 (snd (EVENT_Subscribe 1 11 0 (snd (EVENT_Init bus0)))))"

text \<open>The demonstration bus with one record of type 1 pending, in queue slot 0.\<close>

definition demo_bus1 :: bus where
  "demo_bus1 = snd (EVENT_Publish 1 2 None 0 7 demo_bus)"

text \<open>
  What each public call returns before the first \<^verbatim>\<open>EVENT_Init\<close>: the five registry and
  publish functions reject with \<open>-1\<close>; process, clear_queue and get_count return \<open>0\<close>.
\<close>

fun pre_init_result :: "api_call \<Rightarrow> int" where
  "pre_init_result Process = 0"
| "pre_init_result ClearQueue = 0"
| "pre_init_result GetCount = 0"
| "pre_init_result c = - 1"

text \<open>
  The test \<^verbatim>\<open>EVENT_Unsubscribe\<close> applies to a slot, and the number of active slots of a
  type that hold a given (callback, argument) pair. \<^verbatim>\<open>EVENT_Subscribe\<close> does not look for
  an existing registration, so the number can exceed one.
\<close>

definition slot_matches :: "EventCallback_t \<Rightarrow> ptr \<Rightarrow> Slot_t \<Rightarrow> bool" where
  "slot_matches cb a sl = (used sl \<and> callback sl = cb \<and> arg sl = a)"

definition registrations :: "bus \<Rightarrow> u16 \<Rightarrow> EventCallback_t \<Rightarrow> ptr \<Rightarrow> nat" where
  "registrations s t cb a = length (filter (slot_matches cb a) (g_subscribers s ! unat t))"

text \<open>A bus on which the pair (7, 0) has been subscribed twice to type 2.\<close>

definition dup_bus :: bus where
  "dup_bus = snd (EVENT_Subscribe 2 7 0 (snd (EVENT_Subscribe 2 7 0 (snd (EVENT_Init bus0)))))"

text \<open>
  The calls that only touch the registry, and the state a list of calls other than
  \<^verbatim>\<open>EVENT_Process\<close> leaves behind.
\<close>

fun registry_call :: "api_call \<Rightarrow> bool" where
  "registry_call (Subscribe t cb a) = True"
| "registry_call (Unsubscribe t cb a) = True"
| "registry_call (RegisterObserver cb a) = True"
| "registry_call (UnregisterObserver cb) = True"
| "registry_call c = False"

fun after_calls :: "api_call list \<Rightarrow> bus \<Rightarrow> bus" where
  "after_calls [] s = s"
| "after_calls (c # cs) s = after_calls cs (snd (plain_step c s))"

text \<open>
  Two buses with callbacks 11 and 12 (resp. 11 alone) subscribed to type 1 in slots 0
  and 1 and one record of type 1 pending, and handlers of which 11 unsubscribes 12
  (resp. subscribes 13) when it is called.
\<close>

definition pair_bus :: bus where
  "pair_bus = snd (EVENT_Publish 1 0 None 0 0
     (snd (EVENT_Subscribe 1 12 0 (snd (EVENT_Subscribe 1 11 0 (snd (EVENT_Init bus0)))))))"

definition single_bus :: bus where
  "single_bus = snd (EVENT_Publish 1 0 None 0 0 (snd (EVENT_Subscribe 1 11 0 (snd (EVENT_Init bus0)))))"

definition remover :: handlers where
  "remover cb ev a = (if cb = 11 then [Unsubscribe 1 12 0] else [])"

definition adder :: handlers where
  "adder cb ev a = (if cb = 11 then [Subscribe 1 13 0] else [])"

text \<open>Handlers of which the observer 99 unsubscribes callback 11 from type 1.\<close>

definition dropper :: handlers where
  "dropper cb ev a = (if cb = 99 then [Unsubscribe 1 11 0] else [])"



definition unregisterer :: handlers where
  "unregisterer cb ev a = (if cb = 11 then [UnregisterObserver 99] else [])"


text \<open>
  A full queue whose oldest record carries the payload \<open>[0x01, 0x68]\<close>: callback 11 is
  subscribed to type 2 and callback 99 observes; the payload record of type 2 is
  published first, then 63 records of type 3. \<open>popped_bus\<close> is that bus once
  \<^verbatim>\<open>queue_pop\<close> has released slot 0, and \<open>overwritten_bus\<close> what callback 11 leaves when
  it publishes a follow-up record of type 4 and unsubscribes itself, as a one-shot
  handler does.
\<close>

definition republisher :: handlers where
  "republisher cb ev a = (if cb = 11 then [Publish 4 9 None 0 0, Unsubscribe 2 11 0] else [])"

definition sensor_bus :: bus where
  "sensor_bus = snd (EVENT_Publish 2 1 (Some [0x01, 0x68]) 2 0
     (snd (EVENT_RegisterObserver 99 0 (snd (EVENT_Subscribe 2 11 0 (snd (EVENT_Init bus0)))))))"

definition full_bus :: bus where
  "full_bus = snd (publish_seq (replicate 63 (3, 0, None, 0, 0)) sensor_bus)"

definition popped_bus :: bus where
  "popped_bus = full_bus\<lparr>g_queue := snd (queue_pop (g_queue full_bus))\<rparr>"

definition overwritten_bus :: bus where
  "overwritten_bus = after_calls [Publish 4 9 None 0 0, Unsubscribe 2 11 0] popped_bus"

text \<open>The index of the first slot of a row that holds the pair, if there is one.\<close>

definition first_match :: "EventCallback_t \<Rightarrow> ptr \<Rightarrow> Slot_t list \<Rightarrow> nat" where
  "first_match cb a row = length (takeWhile (\<lambda>sl. \<not> slot_matches cb a sl) row)"

section \<open>The iteration bound\<close>

text \<open>
  The bound only decides whether a result is reached, never which: a call that returns
  within some bound returns the same under every larger one.
\<close>

lemma process_loop_nested:
  "(\<lambda>s'. if \<not> g_initialized s' then Some (0, s', []) else process_loop n env 0 s') =
     EVENT_Process n env"
  by (simp add: EVENT_Process_def fun_eq_iff)

lemma api_step_mono:
  assumes "\<forall>s y. proc s = Some y \<longrightarrow> proc' s = Some y"
  shows "api_step proc c s = Some y \<Longrightarrow> api_step proc' c s = Some y"
  using assms by (cases c; cases y) (auto simp: api_step_def)

lemma run_calls_mono:
  assumes "\<forall>s y. proc s = Some y \<longrightarrow> proc' s = Some y"
  shows "run_calls proc cs s = Some y \<Longrightarrow> run_calls proc' cs s = Some y"
proof (induction cs arbitrary: s y)
  case Nil
  then show ?case by simp
next
  case (Cons c cs)
  from Cons.prems obtain r s1 t1 s2 t2 where
    a: "api_step proc c s = Some (r, s1, t1)" and b: "run_calls proc cs s1 = Some (s2, t2)"
    and y: "y = (s2, t1 @ t2)"
    by (auto split: option.splits)
  from api_step_mono [OF assms a] Cons.IH [OF b] y show ?case by simp
qed

lemma invoke_mono:
  assumes "\<forall>s y. proc s = Some y \<longrightarrow> proc' s = Some y"
  shows "invoke proc env sl e s = Some y \<Longrightarrow> invoke proc' env sl e s = Some y"
  unfolding invoke_def Let_def
  by (auto split: option.splits dest: run_calls_mono [OF assms])

lemma subscriber_loop_mono:
  assumes "\<forall>s y. proc s = Some y \<longrightarrow> proc' s = Some y"
  shows "subscriber_loop proc env e is s = Some y \<Longrightarrow> subscriber_loop proc' env e is s = Some y"
proof (induction "is" arbitrary: s y)
  case Nil
  then show ?case by simp
next
  case (Cons i "is")
  show ?case
  proof (cases "used (g_subscribers s ! unat (type (queue (g_queue s) ! e)) ! i)")
    case True
    with Cons.prems obtain s1 t1 s2 t2 where
      a: "invoke proc env (g_subscribers s ! unat (type (queue (g_queue s) ! e)) ! i) e s
            = Some (s1, t1)"
      and b: "subscriber_loop proc env e is s1 = Some (s2, t2)" and y: "y = (s2, t1 @ t2)"
      by (auto simp: Let_def split: option.splits)
    from invoke_mono [OF assms a] Cons.IH [OF b] y True show ?thesis by (simp add: Let_def)
  next
    case False
    with Cons.prems Cons.IH show ?thesis by (simp add: Let_def)
  qed
qed

lemma observer_loop_mono:
  assumes "\<forall>s y. proc s = Some y \<longrightarrow> proc' s = Some y"
  shows "observer_loop proc env e is s = Some y \<Longrightarrow> observer_loop proc' env e is s = Some y"
proof (induction "is" arbitrary: s y)
  case Nil
  then show ?case by simp
next
  case (Cons i "is")
  show ?case
  proof (cases "used (g_observers s ! i)")
    case True
    with Cons.prems obtain s1 t1 s2 t2 where
      a: "invoke proc env (g_observers s ! i) e s = Some (s1, t1)"
      and b: "observer_loop proc env e is s1 = Some (s2, t2)" and y: "y = (s2, t1 @ t2)"
      by (auto simp: Let_def split: option.splits)
    from invoke_mono [OF assms a] Cons.IH [OF b] y True show ?thesis by (simp add: Let_def)
  next
    case False
    with Cons.prems Cons.IH show ?thesis by (simp add: Let_def)
  qed
qed

lemma dispatch_event_mono:
  assumes "\<forall>s y. proc s = Some y \<longrightarrow> proc' s = Some y"
    and "dispatch_event proc env e s = Some y"
  shows "dispatch_event proc' env e s = Some y"
proof -
  from assms(2) obtain s1 t1 s2 t2 where
    a: "subscriber_loop proc env e [0..<EVENT_SUBSCRIBER_MAX] s = Some (s1, t1)"
    and b: "observer_loop proc env e [0..<EVENT_OBSERVER_MAX] s1 = Some (s2, t2)"
    and y: "y = (s2, t1 @ t2)"
    by (auto simp: dispatch_event_def split: option.splits)
  from subscriber_loop_mono [OF assms(1) a] observer_loop_mono [OF assms(1) b] y
  show ?thesis by (simp add: dispatch_event_def)
qed

lemma process_loop_mono:
  "process_loop n env cnt s = Some y \<Longrightarrow> n \<le> m \<Longrightarrow> process_loop m env cnt s = Some y"
proof (induction n arbitrary: m cnt s y)
  case 0
  then show ?case by simp
next
  case (Suc n)
  from Suc.prems(2) obtain m' where m: "m = Suc m'" and le: "n \<le> m'"
    by (cases m) auto
  have nested: "\<forall>s y. EVENT_Process n env s = Some y \<longrightarrow> EVENT_Process m' env s = Some y"
  proof (intro allI impI)
    fix s y
    assume run: "EVENT_Process n env s = Some y"
    show "EVENT_Process m' env s = Some y"
    proof (cases "g_initialized s")
      case True
      with run have "process_loop n env 0 s = Some y" by (simp add: EVENT_Process_def)
      from Suc.IH [OF this le] True show ?thesis by (simp add: EVENT_Process_def)
    next
      case False
      with run show ?thesis by (simp add: EVENT_Process_def)
    qed
  qed
  show ?case
  proof (cases "queue_is_empty (g_queue s)")
    case True
    with Suc.prems(1) show ?thesis by (simp add: m)
  next
    case False
    then obtain q where q: "queue_pop (g_queue s) = (Some (head (g_queue s)), q)"
      by (auto simp: queue_is_empty_def queue_pop_def)
    have unfold: "process_loop (Suc k) env cnt s =
        (case dispatch_event (EVENT_Process k env) env (head (g_queue s)) (s\<lparr>g_queue := q\<rparr>) of
           None \<Rightarrow> None
         | Some (s1, t1) \<Rightarrow>
             (case process_loop k env (cnt + 1) s1 of
                None \<Rightarrow> None
              | Some (r, s2, t2) \<Rightarrow> Some (r, s2, t1 @ t2)))" for k
      using False q by (simp add: process_loop_nested)
    from Suc.prems(1) obtain s1 t1 r s2 t2 where
      a: "dispatch_event (EVENT_Process n env) env (head (g_queue s)) (s\<lparr>g_queue := q\<rparr>)
            = Some (s1, t1)"
      and b: "process_loop n env (cnt + 1) s1 = Some (r, s2, t2)"
      and y: "y = (r, s2, t1 @ t2)"
      unfolding unfold by (auto split: option.splits)
    from dispatch_event_mono [OF nested a] Suc.IH [OF b le] y
    show ?thesis unfolding m unfold by simp
  qed
qed

lemma EVENT_Process_mono:
  "EVENT_Process n env s = Some y \<Longrightarrow> n \<le> m \<Longrightarrow> EVENT_Process m env s = Some y"
  by (auto simp: EVENT_Process_def dest: process_loop_mono)

section \<open>Queue arithmetic\<close>

lemma queue_init_inv: "queue_inv queue_init"
  by (simp add: queue_inv_def queue_init_def cfg)

lemma succ_mod: "((h + c) mod 64 + 1) mod 64 = (h + (c + 1)) mod (64::nat)"
  by (metis add.assoc mod_add_left_eq)

lemma queue_push_inv: "queue_inv q \<Longrightarrow> queue_inv (snd (queue_push e q))"
  unfolding queue_inv_def queue_push_def cfg
  by (simp add: succ_mod del: One_nat_def)

lemma pop_mod: "0 < c \<Longrightarrow> ((h + 1) mod 64 + c - 1) mod 64 = (h + c) mod (64::nat)"
proof -
  assume "0 < c"
  then obtain d where c: "c = Suc d" by (cases c) auto
  have "((h + 1) mod 64 + d) mod 64 = (h + 1 + d) mod 64"
    by (rule mod_add_left_eq)
  then show ?thesis by (simp add: c)
qed

lemma queue_pop_inv: "queue_inv q \<Longrightarrow> queue_inv (snd (queue_pop q))"
  unfolding queue_inv_def queue_pop_def cfg
  by (auto simp add: pop_mod simp del: One_nat_def)

lemma mod_distinct: "k < c \<Longrightarrow> c < 64 \<Longrightarrow> (h + k) mod 64 \<noteq> (h + c) mod (64::nat)"
proof
  assume kc: "k < c" and c: "c < 64" and eq: "(h + k) mod 64 = (h + c) mod 64"
  from eq have "(h + c) mod 64 = (h + k) mod 64" by simp
  moreover from kc have "h + k \<le> h + c" by simp
  ultimately obtain s where s: "h + c = h + k + 64 * s" by (rule mod_eq_nat1E)
  with kc have "s \<noteq> 0" by (cases s) auto
  with s c show False by simp
qed

text \<open>Popping removes the oldest pending record, pushing adds the newest.\<close>

lemma live_records_pop:
  assumes "queue_inv q" "0 < count q"
  shows "live_records q = queue q ! head q # live_records (snd (queue_pop q))"
proof -
  from assms obtain c where c: "count q = Suc c" by (cases "count q") auto
  from assms have h: "head q < 64" by (simp add: queue_inv_def cfg)
  have shift: "\<And>k. (Suc (head q) mod 64 + k) mod 64 = Suc (head q + k) mod 64"
    by (simp add: mod_add_left_eq)
  have "[0..<Suc c] = 0 # map Suc [0..<c]"
    by (simp add: upt_conv_Cons map_Suc_upt del: upt_Suc)
  then show ?thesis
    using h by (simp add: live_records_def queue_pop_def c cfg shift del: upt_Suc)
qed

lemma live_records_push:
  assumes "queue_inv q" "count q < EVENT_QUEUE_SIZE" "length (queue q) = EVENT_QUEUE_SIZE"
  shows "live_records (snd (queue_push e q)) = live_records q @ [e]"
proof -
  from assms have t: "tail q = (head q + count q) mod 64" "tail q < length (queue q)"
    by (simp_all add: queue_inv_def cfg)
  from assms have c: "count q < 64" by (simp add: cfg)
  have old: "\<And>k. k < count q \<Longrightarrow>
      (queue q)[tail q := e] ! ((head q + k) mod 64) = queue q ! ((head q + k) mod 64)"
  proof -
    fix k assume "k < count q"
    from mod_distinct [OF this c, of "head q"] have "tail q \<noteq> (head q + k) mod 64"
      by (simp add: t(1))
    then show "(queue q)[tail q := e] ! ((head q + k) mod 64) = queue q ! ((head q + k) mod 64)"
      by (rule nth_list_update_neq)
  qed
  have "map (\<lambda>k. (queue q)[tail q := e] ! ((head q + k) mod 64)) [0..<count q] =
        map (\<lambda>k. queue q ! ((head q + k) mod 64)) [0..<count q]"
    by (rule map_cong) (simp_all add: old)
  moreover have "(queue q)[tail q := e] ! ((head q + count q) mod 64) = e"
    using t by simp
  ultimately show ?thesis
    using c by (simp add: live_records_def queue_push_def cfg)
qed

section \<open>Properties that every call preserves\<close>

lemma api_step_plain:
  "c \<noteq> Process \<Longrightarrow> api_step proc c s = Some (fst (plain_step c s), snd (plain_step c s), [])"
  by (cases c) (simp_all add: api_step_def plain_step_def)

lemma api_step_Process [simp]: "api_step proc Process s = proc s"
  by (simp add: api_step_def)

lemma plain_step_simps:
  "plain_step Init s = EVENT_Init s"
  "plain_step (Subscribe ty cb a) s = EVENT_Subscribe ty cb a s"
  "plain_step (Unsubscribe ty cb a) s = EVENT_Unsubscribe ty cb a s"
  "plain_step (Publish ty p d n now) s = EVENT_Publish ty p d n now s"
  "plain_step ClearQueue s = EVENT_ClearQueue s"
  "plain_step GetCount s = (int (EVENT_GetCount s), s)"
  "plain_step (RegisterObserver cb a) s = EVENT_RegisterObserver cb a s"
  "plain_step (UnregisterObserver cb) s = EVENT_UnregisterObserver cb s"
  by (simp_all add: plain_step_def api_step_def)

text \<open>
  A property of the state that the handler-free calls and the nested
  \<^verbatim>\<open>EVENT_Process\<close> preserve is preserved by everything a handler does, hence by a
  whole dispatch.
\<close>

lemma run_calls_pres:
  assumes step: "\<forall>c s. c \<noteq> Process \<longrightarrow> P s \<longrightarrow> P (snd (plain_step c s))"
    and proc: "\<forall>s r s' t. P s \<longrightarrow> proc s = Some (r, s', t) \<longrightarrow> P s'"
  shows "P s \<Longrightarrow> run_calls proc cs s = Some (s', t) \<Longrightarrow> P s'"
proof (induction cs arbitrary: s s' t)
  case Nil
  then show ?case by simp
next
  case (Cons c cs)
  from Cons.prems(2) obtain r s1 t1 s2 t2 where
    a: "api_step proc c s = Some (r, s1, t1)" and b: "run_calls proc cs s1 = Some (s2, t2)"
    and c: "s' = s2"
    by (auto split: option.splits)
  have "P s1"
  proof (cases "c = Process")
    case True
    with a Cons.prems(1) proc show ?thesis by auto
  next
    case False
    with a Cons.prems(1) step show ?thesis by (auto simp add: api_step_plain)
  qed
  with Cons.IH b c show ?case by blast
qed

lemma invoke_pres:
  assumes step: "\<forall>c s. c \<noteq> Process \<longrightarrow> P s \<longrightarrow> P (snd (plain_step c s))"
    and proc: "\<forall>s r s' t. P s \<longrightarrow> proc s = Some (r, s', t) \<longrightarrow> P s'"
  shows "P s \<Longrightarrow> invoke proc env sl e s = Some (s', t) \<Longrightarrow> P s'"
  unfolding invoke_def Let_def
  using run_calls_pres [where P = P, OF step proc]
  by (fastforce split: option.splits)

lemma subscriber_loop_pres:
  assumes step: "\<forall>c s. c \<noteq> Process \<longrightarrow> P s \<longrightarrow> P (snd (plain_step c s))"
    and proc: "\<forall>s r s' t. P s \<longrightarrow> proc s = Some (r, s', t) \<longrightarrow> P s'"
  shows "P s \<Longrightarrow> subscriber_loop proc env e is s = Some (s', t) \<Longrightarrow> P s'"
proof (induction "is" arbitrary: s s' t)
  case Nil
  then show ?case by simp
next
  case (Cons i "is")
  show ?case
  proof (cases "used (g_subscribers s ! unat (type (queue (g_queue s) ! e)) ! i)")
    case True
    with Cons.prems(2) obtain s1 t1 t2 where
      a: "invoke proc env (g_subscribers s ! unat (type (queue (g_queue s) ! e)) ! i) e s
            = Some (s1, t1)"
      and b: "subscriber_loop proc env e is s1 = Some (s', t2)"
      by (auto simp: Let_def split: option.splits)
    from invoke_pres [where P = P, OF step proc Cons.prems(1) a] have "P s1" .
    with Cons.IH b show ?thesis by blast
  next
    case False
    with Cons.prems Cons.IH show ?thesis by (auto simp: Let_def)
  qed
qed

lemma observer_loop_pres:
  assumes step: "\<forall>c s. c \<noteq> Process \<longrightarrow> P s \<longrightarrow> P (snd (plain_step c s))"
    and proc: "\<forall>s r s' t. P s \<longrightarrow> proc s = Some (r, s', t) \<longrightarrow> P s'"
  shows "P s \<Longrightarrow> observer_loop proc env e is s = Some (s', t) \<Longrightarrow> P s'"
proof (induction "is" arbitrary: s s' t)
  case Nil
  then show ?case by simp
next
  case (Cons i "is")
  show ?case
  proof (cases "used (g_observers s ! i)")
    case True
    with Cons.prems(2) obtain s1 t1 t2 where
      a: "invoke proc env (g_observers s ! i) e s = Some (s1, t1)"
      and b: "observer_loop proc env e is s1 = Some (s', t2)"
      by (auto simp: Let_def split: option.splits)
    from invoke_pres [where P = P, OF step proc Cons.prems(1) a] have "P s1" .
    with Cons.IH b show ?thesis by blast
  next
    case False
    with Cons.prems Cons.IH show ?thesis by (auto simp: Let_def)
  qed
qed

lemma dispatch_event_pres:
  assumes step: "\<forall>c s. c \<noteq> Process \<longrightarrow> P s \<longrightarrow> P (snd (plain_step c s))"
    and proc: "\<forall>s r s' t. P s \<longrightarrow> proc s = Some (r, s', t) \<longrightarrow> P s'"
    and P: "P s" and d: "dispatch_event proc env e s = Some (s', t)"
  shows "P s'"
proof -
  from d obtain s1 t1 t2 where
    a: "subscriber_loop proc env e [0..<EVENT_SUBSCRIBER_MAX] s = Some (s1, t1)"
    and b: "observer_loop proc env e [0..<EVENT_OBSERVER_MAX] s1 = Some (s', t2)"
    by (auto simp: dispatch_event_def split: option.splits)
  from subscriber_loop_pres [where P = P, OF step proc P a] have "P s1" .
  from observer_loop_pres [where P = P, OF step proc this b] show ?thesis .
qed

text \<open>By induction on the iteration bound, the same holds for the draining loop.\<close>

lemma process_loop_pres:
  assumes step: "\<forall>c s. c \<noteq> Process \<longrightarrow> P s \<longrightarrow> P (snd (plain_step c s))"
    and pop: "\<And>s. P s \<Longrightarrow> P (s\<lparr>g_queue := snd (queue_pop (g_queue s))\<rparr>)"
  shows "P s \<Longrightarrow> process_loop n env cnt s = Some (r, s', t) \<Longrightarrow> P s'"
proof (induction n arbitrary: s cnt r s' t)
  case 0
  then show ?case by simp
next
  case (Suc n)
  let ?proc = "\<lambda>s'. if \<not> g_initialized s' then Some (0, s', []) else process_loop n env 0 s'"
  have proc: "\<forall>s r s' t. P s \<longrightarrow> ?proc s = Some (r, s', t) \<longrightarrow> P s'"
    using Suc.IH by (auto split: if_splits)
  show ?case
  proof (cases "queue_is_empty (g_queue s)")
    case True
    with Suc.prems show ?thesis by simp
  next
    case False
    then obtain q where q: "queue_pop (g_queue s) = (Some (head (g_queue s)), q)"
      by (auto simp: queue_is_empty_def queue_pop_def)
    from pop [OF Suc.prems(1)] q have P1: "P (s\<lparr>g_queue := q\<rparr>)" by simp
    from Suc.prems(2) False q obtain s1 t1 t2 where
      a: "dispatch_event ?proc env (head (g_queue s)) (s\<lparr>g_queue := q\<rparr>) = Some (s1, t1)"
      and b: "process_loop n env (cnt + 1) s1 = Some (r, s', t2)"
      by (auto split: option.splits)
    from dispatch_event_pres [where P = P, OF step proc P1 a] have "P s1" .
    with Suc.IH b show ?thesis by blast
  qed
qed

lemma g_queue_Subscribe: "g_queue (snd (EVENT_Subscribe ty cb a s)) = g_queue s"
  by (simp add: EVENT_Subscribe_def split: option.splits)

lemma g_queue_Unsubscribe: "g_queue (snd (EVENT_Unsubscribe ty cb a s)) = g_queue s"
  by (simp add: EVENT_Unsubscribe_def split: option.splits)

lemma g_queue_RegisterObserver: "g_queue (snd (EVENT_RegisterObserver cb a s)) = g_queue s"
  by (simp add: EVENT_RegisterObserver_def split: option.splits)

lemma g_queue_UnregisterObserver: "g_queue (snd (EVENT_UnregisterObserver cb s)) = g_queue s"
  by (simp add: EVENT_UnregisterObserver_def split: option.splits)

lemma g_queue_Publish:
  "g_queue (snd (EVENT_Publish ty p d n now s)) =
     (if fst (EVENT_Publish ty p d n now s) = 0
      then snd (queue_push (make_event ty p d n now) (g_queue s)) else g_queue s)"
  by (simp add: EVENT_Publish_def split: prod.splits)

lemma plain_step_queue_inv:
  assumes "queue_inv (g_queue s)"
  shows "queue_inv (g_queue (snd (plain_step c s)))"
proof (cases c)
  case Init
  then show ?thesis by (simp add: plain_step_simps EVENT_Init_def queue_init_inv)
next
  case (Publish ty p d n now)
  with assms show ?thesis
    by (simp add: Publish plain_step_simps g_queue_Publish queue_push_inv)
next
  case Process
  with assms show ?thesis by (simp add: plain_step_def)
next
  case ClearQueue
  then show ?thesis by (simp add: plain_step_simps EVENT_ClearQueue_def queue_init_inv)
qed (use assms in \<open>simp_all add: plain_step_simps g_queue_Subscribe g_queue_Unsubscribe
      g_queue_RegisterObserver g_queue_UnregisterObserver EVENT_GetCount_def\<close>)

lemma process_loop_queue_inv:
  "queue_inv (g_queue s) \<Longrightarrow> process_loop n env cnt s = Some (r, s', t) \<Longrightarrow>
     queue_inv (g_queue s')"
  by (rule process_loop_pres [where P = "\<lambda>s. queue_inv (g_queue s)"])
     (simp_all add: plain_step_queue_inv queue_pop_inv)

section \<open>The queue invariant\<close>

text \<open>
  Claim C10. The queue invariant (\<open>count \<le> 64\<close>, \<open>head < 64\<close>, \<open>tail < 64\<close>, and the live
  region of \<open>count\<close> slots from \<open>head\<close> ends at \<open>tail\<close>, modulo 64) holds of the zeroed
  state the program starts in, and every public call that returns (init, subscribe,
  unsubscribe, publish, process, clear_queue, get_count, register_observer,
  unregister_observer) leaves it true if it was true before, whatever calls the handlers
  make during process.
\<close>

theorem queue_invariant_preserved:
  "queue_inv (g_queue bus0) \<and>
   (queue_inv (g_queue s) \<longrightarrow> EVENT_call fuel env c s = Some (r, s', t) \<longrightarrow>
      queue_inv (g_queue s'))"
proof (intro conjI impI)
  show "queue_inv (g_queue bus0)" by (simp add: bus0_def queue_init_inv)
next
  assume inv: "queue_inv (g_queue s)" and call: "EVENT_call fuel env c s = Some (r, s', t)"
  show "queue_inv (g_queue s')"
  proof (cases "c = Process")
    case True
    with call have "EVENT_Process fuel env s = Some (r, s', t)"
      by (simp add: EVENT_call_def)
    with inv show ?thesis
      by (auto simp: EVENT_Process_def split: if_splits dest: process_loop_queue_inv)
  next
    case False
    with call have "s' = snd (plain_step c s)"
      by (simp add: EVENT_call_def api_step_plain)
    with inv show ?thesis by (simp add: plain_step_queue_inv)
  qed
qed

theorem queue_invariant_preserved_witness:
  "queue_inv (g_queue (snd (EVENT_Publish 1 0 None 0 0 (snd (EVENT_Init bus0)))))"
  using queue_invariant_preserved [of "snd (EVENT_Init bus0)" 0 quiet "Publish 1 0 None 0 0"]
  by (simp add: EVENT_call_def api_step_def EVENT_Init_def queue_init_inv)

section \<open>Handlers that do not call back into the bus\<close>

text \<open>
  With such handlers a dispatch changes nothing and calls the fan-out of the record, and
  the draining loop returns after one iteration for each pending record.
\<close>

lemma silent_quiet: "silent quiet s"
  by (simp add: silent_def quiet_def)

lemma invoke_silent:
  "env (callback sl) (queue (g_queue s) ! e) (arg sl) = [] \<Longrightarrow>
     invoke proc env sl e s = Some (s, [slot_call (queue (g_queue s) ! e) sl])"
  by (simp add: invoke_def slot_call_def)

lemma subscriber_loop_silent:
  assumes "\<forall>i\<in>set is. used (g_subscribers s ! unat (type (queue (g_queue s) ! e)) ! i) \<longrightarrow>
      env (callback (g_subscribers s ! unat (type (queue (g_queue s) ! e)) ! i))
          (queue (g_queue s) ! e)
          (arg (g_subscribers s ! unat (type (queue (g_queue s) ! e)) ! i)) = []"
  shows "subscriber_loop proc env e is s =
    Some (s, map (\<lambda>i. slot_call (queue (g_queue s) ! e)
                        (g_subscribers s ! unat (type (queue (g_queue s) ! e)) ! i))
               (filter (\<lambda>i. used (g_subscribers s ! unat (type (queue (g_queue s) ! e)) ! i)) is))"
  using assms by (induction "is") (simp_all add: invoke_silent Let_def)

lemma observer_loop_silent:
  assumes "\<forall>i\<in>set is. used (g_observers s ! i) \<longrightarrow>
      env (callback (g_observers s ! i)) (queue (g_queue s) ! e) (arg (g_observers s ! i)) = []"
  shows "observer_loop proc env e is s =
    Some (s, map (\<lambda>i. slot_call (queue (g_queue s) ! e) (g_observers s ! i))
               (filter (\<lambda>i. used (g_observers s ! i)) is))"
  using assms by (induction "is") (simp_all add: invoke_silent Let_def)

lemma wf_row:
  "wf_bus s \<Longrightarrow> t < EVENT_MAX_COUNT \<Longrightarrow> length (g_subscribers s ! t) = EVENT_SUBSCRIBER_MAX"
  by (simp add: wf_bus_def list_all_length)

lemma wf_row_in_concat:
  "wf_bus s \<Longrightarrow> t < EVENT_MAX_COUNT \<Longrightarrow> i < EVENT_SUBSCRIBER_MAX \<Longrightarrow>
     g_subscribers s ! t ! i \<in> set (concat (g_subscribers s))"
  using wf_row [of s t] by (auto simp: wf_bus_def intro!: bexI [of _ "g_subscribers s ! t"])

lemma wf_type:
  "wf_bus s \<Longrightarrow> e < EVENT_QUEUE_SIZE \<Longrightarrow> unat (type (queue (g_queue s) ! e)) < EVENT_MAX_COUNT"
  by (simp add: wf_bus_def list_all_length)

lemma dispatch_event_silent:
  assumes wf: "wf_bus s" and e: "e < EVENT_QUEUE_SIZE" and sil: "silent env s"
  shows "dispatch_event proc env e s = Some (s, fanout s (queue (g_queue s) ! e))"
proof -
  let ?ev = "queue (g_queue s) ! e"
  let ?row = "g_subscribers s ! unat (type ?ev)"
  from wf e have ty: "unat (type ?ev) < EVENT_MAX_COUNT" by (rule wf_type)
  from wf ty have len: "length ?row = EVENT_SUBSCRIBER_MAX" by (rule wf_row)
  from wf have olen: "length (g_observers s) = EVENT_OBSERVER_MAX" by (simp add: wf_bus_def)
  have subs: "subscriber_loop proc env e [0..<EVENT_SUBSCRIBER_MAX] s =
      Some (s, map (\<lambda>i. slot_call ?ev (?row ! i)) (filter (\<lambda>i. used (?row ! i)) [0..<EVENT_SUBSCRIBER_MAX]))"
  proof (rule subscriber_loop_silent, intro ballI impI)
    fix i assume "i \<in> set [0..<EVENT_SUBSCRIBER_MAX]" and u: "used (?row ! i)"
    then have "?row ! i \<in> set (concat (g_subscribers s))"
      using wf_row_in_concat [OF wf ty] by simp
    with sil u show "env (callback (?row ! i)) ?ev (arg (?row ! i)) = []"
      by (simp add: silent_def)
  qed
  have obs: "observer_loop proc env e [0..<EVENT_OBSERVER_MAX] s =
      Some (s, map (\<lambda>i. slot_call ?ev (g_observers s ! i))
                 (filter (\<lambda>i. used (g_observers s ! i)) [0..<EVENT_OBSERVER_MAX]))"
  proof (rule observer_loop_silent, intro ballI impI)
    fix i assume "i \<in> set [0..<EVENT_OBSERVER_MAX]" and u: "used (g_observers s ! i)"
    then have "g_observers s ! i \<in> set (g_observers s)"
      using olen by simp
    with sil u show "env (callback (g_observers s ! i)) ?ev (arg (g_observers s ! i)) = []"
      by (simp add: silent_def)
  qed
  show ?thesis
    by (simp add: dispatch_event_def subs obs fanout_def active_slots_def len olen)
qed

lemma fanout_g_queue [simp]: "fanout (s\<lparr>g_queue := q\<rparr>) ev = fanout s ev"
  by (simp add: fanout_def)

lemma silent_g_queue [simp]: "silent env (s\<lparr>g_queue := q\<rparr>) = silent env s"
  by (simp add: silent_def)

lemma wf_bus_pop: "wf_bus s \<Longrightarrow> wf_bus (s\<lparr>g_queue := snd (queue_pop (g_queue s))\<rparr>)"
  by (simp add: wf_bus_def queue_pop_def)

lemma process_loop_silent:
  assumes "wf_bus s" "queue_inv (g_queue s)" "silent env s" "count (g_queue s) < n"
  shows "process_loop n env cnt s =
     Some (cnt + int (count (g_queue s)), drained s,
           concat (map (fanout s) (live_records (g_queue s))))"
  using assms
proof (induction n arbitrary: s cnt)
  case 0
  then show ?case by simp
next
  case (Suc n)
  show ?case
  proof (cases "count (g_queue s) = 0")
    case True
    from Suc.prems(2) True have "tail (g_queue s) = head (g_queue s)"
      by (simp add: queue_inv_def cfg)
    with True have "drained s = s" by (simp add: drained_def)
    with True show ?thesis
      by (simp add: queue_is_empty_def live_records_def)
  next
    case False
    define q where "q = snd (queue_pop (g_queue s))"
    let ?s1 = "s\<lparr>g_queue := q\<rparr>"
    let ?h = "head (g_queue s)"
    from False have pop: "queue_pop (g_queue s) = (Some ?h, q)"
      by (simp add: queue_pop_def q_def)
    from Suc.prems(2) have h: "?h < EVENT_QUEUE_SIZE" by (simp add: queue_inv_def)
    have wf1: "wf_bus ?s1" using Suc.prems(1) unfolding q_def by (rule wf_bus_pop)
    have inv1: "queue_inv (g_queue ?s1)" using Suc.prems(2) by (simp add: queue_pop_inv q_def)
    have sil1: "silent env ?s1" using Suc.prems(3) by simp
    have cnt1: "count (g_queue ?s1) < n"
      using Suc.prems(4) False by (simp add: queue_pop_def q_def)
    have same: "queue q = queue (g_queue s)" "tail q = tail (g_queue s)"
      by (simp_all add: queue_pop_def q_def)
    have d: "dispatch_event proc env ?h ?s1 = Some (?s1, fanout s (queue (g_queue s) ! ?h))" for proc
      using dispatch_event_silent [OF wf1 h sil1, of proc] by (simp add: same)
    have rest: "process_loop n env (cnt + 1) ?s1 =
       Some (cnt + 1 + int (count (g_queue ?s1)), drained ?s1,
             concat (map (fanout ?s1) (live_records (g_queue ?s1))))"
      using wf1 inv1 sil1 cnt1 by (rule Suc.IH)
    have dr: "drained ?s1 = drained s"
      by (simp add: drained_def same)
    have lr: "live_records (g_queue s) = queue (g_queue s) ! ?h # live_records q"
      using Suc.prems(2) False by (simp add: live_records_pop q_def)
    have fo: "map (fanout ?s1) xs = map (fanout s) xs" for xs by simp
    from False have ne: "\<not> queue_is_empty (g_queue s)" by (simp add: queue_is_empty_def)
    have c: "1 + int (count q) = int (count (g_queue s))"
      using False by (simp add: queue_pop_def q_def)
    show ?thesis
      unfolding process_loop.simps
      by (simp add: ne pop d rest dr lr fo c)
  qed
qed

lemma EVENT_Process_silent:
  assumes "wf_bus s" "queue_inv (g_queue s)" "silent env s" "count (g_queue s) < n"
    "g_initialized s"
  shows "EVENT_Process n env s =
     Some (int (count (g_queue s)), drained s,
           concat (map (fanout s) (live_records (g_queue s))))"
  using process_loop_silent [OF assms(1-4), of 0] assms(5) by (simp add: EVENT_Process_def)

section \<open>Publishing\<close>

lemma EVENT_Publish_ok_iff:
  "fst (EVENT_Publish ty p d n now s) = 0 \<longleftrightarrow>
     g_initialized s \<and> unat ty < EVENT_MAX_COUNT \<and>
     (d = None \<or> unat n \<le> EVENT_DATA_SIZE_MAX) \<and> count (g_queue s) < EVENT_QUEUE_SIZE"
  by (cases d) (auto simp: EVENT_Publish_def queue_push_def)

lemma EVENT_Publish_ok:
  "fst (EVENT_Publish ty p d n now s) = 0 \<Longrightarrow>
     snd (EVENT_Publish ty p d n now s) =
       s\<lparr>g_queue := snd (queue_push (make_event ty p d n now) (g_queue s))\<rparr>"
  by (cases d) (auto simp: EVENT_Publish_def queue_push_def split: if_splits)

lemma EVENT_Publish_fail:
  "fst (EVENT_Publish ty p d n now s) \<noteq> 0 \<Longrightarrow> EVENT_Publish ty p d n now s = (- 1, s)"
  by (simp add: EVENT_Publish_def queue_push_def split: if_splits)

lemma type_make_event [simp]: "type (make_event ty p d n now) = ty"
  by (simp add: make_event_def zero_event_def Let_def split: option.splits)

lemma priority_make_event [simp]: "priority (make_event ty p d n now) = p"
  by (simp add: make_event_def zero_event_def Let_def split: option.splits)

lemma list_all_update: "list_all P xs \<Longrightarrow> P x \<Longrightarrow> list_all P (xs[i := x])"
  by (induction xs arbitrary: i) (auto split: nat.splits)

lemma wf_bus_push:
  "wf_bus s \<Longrightarrow> unat (type e) < EVENT_MAX_COUNT \<Longrightarrow>
     wf_bus (s\<lparr>g_queue := snd (queue_push e (g_queue s))\<rparr>)"
  by (simp add: wf_bus_def queue_push_def list_all_update)

lemma wf_bus_Init: "wf_bus (snd (EVENT_Init s))"
  by (simp add: wf_bus_def EVENT_Init_def queue_init_def zero_subscribers_def zero_observers_def
      zero_event_def list_all_iff cfg)

lemma wf_bus0: "wf_bus bus0"
  by (simp add: wf_bus_def bus0_def queue_init_def zero_subscribers_def zero_observers_def
      zero_event_def list_all_iff cfg)

lemma wf_bus_Publish: "wf_bus s \<Longrightarrow> wf_bus (snd (EVENT_Publish ty p d n now s))"
proof (cases "fst (EVENT_Publish ty p d n now s) = 0")
  case True
  assume "wf_bus s"
  with True show ?thesis
    by (simp add: EVENT_Publish_ok wf_bus_push EVENT_Publish_ok_iff)
next
  case False
  assume "wf_bus s"
  with False show ?thesis by (simp add: EVENT_Publish_fail)
qed

lemma wf_bus_Subscribe: "wf_bus s \<Longrightarrow> wf_bus (snd (EVENT_Subscribe ty cb a s))"
  by (auto simp: EVENT_Subscribe_def wf_bus_def list_all_length nth_list_update
      split: option.splits)

lemma wf_bus_Unsubscribe: "wf_bus s \<Longrightarrow> wf_bus (snd (EVENT_Unsubscribe ty cb a s))"
  by (auto simp: EVENT_Unsubscribe_def wf_bus_def list_all_length nth_list_update
      split: option.splits)

lemma wf_bus_RegisterObserver: "wf_bus s \<Longrightarrow> wf_bus (snd (EVENT_RegisterObserver cb a s))"
  by (auto simp: EVENT_RegisterObserver_def wf_bus_def split: option.splits)

lemma wf_bus_UnregisterObserver: "wf_bus s \<Longrightarrow> wf_bus (snd (EVENT_UnregisterObserver cb s))"
  by (auto simp: EVENT_UnregisterObserver_def wf_bus_def split: option.splits)

lemma wf_bus_ClearQueue: "wf_bus s \<Longrightarrow> wf_bus (snd (EVENT_ClearQueue s))"
  by (simp add: wf_bus_def EVENT_ClearQueue_def queue_init_def zero_event_def list_all_iff cfg)

lemma plain_step_wf_bus:
  assumes "wf_bus s"
  shows "wf_bus (snd (plain_step c s))"
proof (cases c)
  case Process
  with assms show ?thesis by (simp add: plain_step_def)
qed (use assms in \<open>simp_all add: plain_step_simps wf_bus_Init wf_bus_Subscribe wf_bus_Unsubscribe
      wf_bus_Publish wf_bus_ClearQueue wf_bus_RegisterObserver wf_bus_UnregisterObserver\<close>)

lemma process_loop_wf_bus:
  "wf_bus s \<Longrightarrow> process_loop n env cnt s = Some (r, s', t) \<Longrightarrow> wf_bus s'"
  by (rule process_loop_pres [where P = wf_bus]) (simp_all add: plain_step_wf_bus wf_bus_pop)

lemma plain_step_initialized:
  assumes "g_initialized s"
  shows "g_initialized (snd (plain_step c s))"
proof (cases c)
  case Process
  with assms show ?thesis by (simp add: plain_step_def)
qed (use assms in \<open>auto simp: plain_step_simps EVENT_Init_def EVENT_Subscribe_def
      EVENT_Unsubscribe_def EVENT_Publish_def EVENT_ClearQueue_def EVENT_RegisterObserver_def
      EVENT_UnregisterObserver_def split: option.splits prod.splits\<close>)

lemma process_loop_initialized:
  "g_initialized s \<Longrightarrow> process_loop n env cnt s = Some (r, s', t) \<Longrightarrow> g_initialized s'"
  by (rule process_loop_pres [where P = g_initialized]) (simp_all add: plain_step_initialized)

lemma process_loop_empties:
  "process_loop n env cnt s = Some (r, s', t) \<Longrightarrow> count (g_queue s') = 0"
proof (induction n arbitrary: s cnt r s' t)
  case 0
  then show ?case by simp
next
  case (Suc n)
  show ?case
  proof (cases "queue_is_empty (g_queue s)")
    case True
    with Suc.prems show ?thesis by (simp add: queue_is_empty_def)
  next
    case False
    then have "queue_pop (g_queue s) = (Some (head (g_queue s)), snd (queue_pop (g_queue s)))"
      by (simp add: queue_is_empty_def queue_pop_def)
    with Suc.prems False obtain c1 s1 t2 where "process_loop n env c1 s1 = Some (r, s', t2)"
      by (auto split: option.splits prod.splits)
    then show ?thesis by (rule Suc.IH)
  qed
qed

section \<open>Runs of publish calls\<close>

lemma registry_Publish:
  "g_subscribers (snd (EVENT_Publish ty p d n now s)) = g_subscribers s"
  "g_observers (snd (EVENT_Publish ty p d n now s)) = g_observers s"
  "g_initialized (snd (EVENT_Publish ty p d n now s)) = g_initialized s"
  by (simp_all add: EVENT_Publish_def split: prod.splits)

lemma fanout_cong:
  "g_subscribers s' = g_subscribers s \<Longrightarrow> g_observers s' = g_observers s \<Longrightarrow>
     fanout s' = fanout s"
  by (rule ext) (simp add: fanout_def)

lemma silent_cong:
  "g_subscribers s' = g_subscribers s \<Longrightarrow> g_observers s' = g_observers s \<Longrightarrow>
     silent env s' = silent env s"
  by (simp add: silent_def)

text \<open>A run of successful publishes appends its records, in order, to the pending ones.\<close>

lemma publish_seq_ok:
  assumes "publish_seq ps s = (rs, s')" "list_all (\<lambda>r. r = 0) rs"
    "wf_bus s" "queue_inv (g_queue s)"
  shows "wf_bus s' \<and> queue_inv (g_queue s') \<and>
     g_subscribers s' = g_subscribers s \<and> g_observers s' = g_observers s \<and>
     g_initialized s' = g_initialized s \<and>
     live_records (g_queue s') = live_records (g_queue s) @ map event_of ps"
  using assms
proof (induction ps arbitrary: s rs)
  case Nil
  then show ?case by simp
next
  case (Cons a ps)
  obtain ty p d n now where a: "a = (ty, p, d, n, now)" by (cases a)
  let ?s1 = "snd (EVENT_Publish ty p d n now s)"
  obtain rs1 where rs1: "publish_seq ps ?s1 = (rs1, s')"
    and rs: "rs = fst (EVENT_Publish ty p d n now s) # rs1"
    using Cons.prems(1) by (auto simp: a split: prod.splits)
  from Cons.prems(2) rs have ok: "fst (EVENT_Publish ty p d n now s) = 0"
    and ok1: "list_all (\<lambda>r. r = 0) rs1" by simp_all
  from ok have room: "count (g_queue s) < EVENT_QUEUE_SIZE"
    by (simp add: EVENT_Publish_ok_iff)
  have wf1: "wf_bus ?s1" using Cons.prems(3) by (rule wf_bus_Publish)
  have inv1: "queue_inv (g_queue ?s1)"
    using Cons.prems(4) ok by (simp add: g_queue_Publish queue_push_inv)
  have len: "length (queue (g_queue s)) = EVENT_QUEUE_SIZE"
    using Cons.prems(3) by (simp add: wf_bus_def)
  have lr: "live_records (g_queue ?s1) = live_records (g_queue s) @ [event_of a]"
    using ok by (simp add: g_queue_Publish live_records_push [OF Cons.prems(4) room len] a)
  from Cons.IH [OF rs1 ok1 wf1 inv1] show ?case
    by (simp add: registry_Publish lr)
qed

lemma publish_seq_count:
  "publish_seq ps s = (rs, s') \<Longrightarrow> list_all (\<lambda>r. r = 0) rs \<Longrightarrow>
     count (g_queue s') = count (g_queue s) + length ps \<and> (ps \<noteq> [] \<longrightarrow> g_initialized s')"
proof (induction ps arbitrary: s rs)
  case Nil
  then show ?case by simp
next
  case (Cons a ps)
  obtain ty p d n now where a: "a = (ty, p, d, n, now)" by (cases a)
  let ?s1 = "snd (EVENT_Publish ty p d n now s)"
  obtain rs1 where rs1: "publish_seq ps ?s1 = (rs1, s')"
    and rs: "rs = fst (EVENT_Publish ty p d n now s) # rs1"
    using Cons.prems(1) by (auto simp: a split: prod.splits)
  from Cons.prems(2) rs have ok: "fst (EVENT_Publish ty p d n now s) = 0"
    and ok1: "list_all (\<lambda>r. r = 0) rs1" by simp_all
  from ok have c1: "count (g_queue ?s1) = count (g_queue s) + 1"
    by (simp add: g_queue_Publish queue_push_def EVENT_Publish_ok_iff)
  from ok have i1: "g_initialized ?s1"
    by (simp add: registry_Publish EVENT_Publish_ok_iff)
  from Cons.IH [OF rs1 ok1] have
    "count (g_queue s') = count (g_queue ?s1) + length ps" by simp
  moreover have "g_initialized s'"
  proof (cases ps)
    case Nil
    with rs1 i1 show ?thesis by simp
  next
    case (Cons b bs)
    with Cons.IH [OF rs1 ok1] show ?thesis by simp
  qed
  ultimately show ?case using c1 by simp
qed

text \<open>Every invocation of one record's fan-out is shown that record.\<close>

lemma fanout_events: "map (\<lambda>v. fst (snd v)) (fanout s ev) = replicate (length (fanout s ev)) ev"
  by (simp add: fanout_def slot_call_def map_replicate_const comp_def replicate_add)

section \<open>FIFO order\<close>


text \<open>The demonstration bus is well formed, initialised and empty.\<close>

lemma demo_bus_wf: "wf_bus demo_bus"
  by (simp add: demo_bus_def wf_bus_Init wf_bus_Subscribe wf_bus_RegisterObserver)

lemma demo_bus_inv: "queue_inv (g_queue demo_bus)"
  by (simp add: demo_bus_def g_queue_Subscribe g_queue_RegisterObserver EVENT_Init_def
      queue_init_inv)

lemma demo_bus_initialized: "g_initialized demo_bus"
  by (simp add: demo_bus_def plain_step_initialized [of _ "RegisterObserver 99 0", simplified plain_step_simps]
      plain_step_initialized [of _ "Subscribe 1 11 0", simplified plain_step_simps] EVENT_Init_def)

lemma demo_bus_count: "count (g_queue demo_bus) = 0"
  by (simp add: demo_bus_def g_queue_Subscribe g_queue_RegisterObserver EVENT_Init_def
      queue_init_def)


text \<open>
  The same run evaluated: the record of priority 5, published first, reaches subscriber
  11 and observer 99 before the record of priority 9 does.
\<close>

lemma fifo_example:
  "map_option (\<lambda>(r, s, t). (r, map (\<lambda>(cb, ev, a). (cb, priority ev, timestamp ev)) t))
     (EVENT_Process 3 quiet (snd (publish_seq [(1, 5, None, 0, 100), (1, 9, None, 0, 101)] demo_bus)))
   = Some (2, [(11, 5, 100), (99, 5, 100), (11, 9, 101), (99, 9, 101)])"
  by code_simp


section \<open>Fan-out of one record\<close>

lemma active_slots_filter:
  "map (\<lambda>i. f (row ! i)) (active_slots row) = map f (filter used row)"
proof -
  have "map f (filter used row) = map f (filter used (map ((!) row) [0..<length row]))"
    by (simp add: map_nth)
  also have "\<dots> = map (\<lambda>i. f (row ! i)) (active_slots row)"
    by (simp add: filter_map active_slots_def comp_def)
  finally show ?thesis by simp
qed

lemma active_slots_length: "length (active_slots row) = length (filter used row)"
  using active_slots_filter [of id row] by (metis length_map)

lemma active_slots_sorted: "sorted_wrt (<) (active_slots row)"
  by (simp add: active_slots_def sorted_wrt_filter)

lemma active_slots_set: "set (active_slots row) = {i. i < length row \<and> used (row ! i)}"
  by (auto simp: active_slots_def)

text \<open>
  Claim C2, as the code has it. Fan-out completeness and order: when the registered
  handlers do not call back into the bus, then with \<open>k\<close> active subscriber slots for the
  record's type and \<open>m\<close> active observer slots, dispatching one queued record makes
  exactly \<open>k + m\<close> handler calls, all of them with that record: one for each active
  subscriber slot of the type in ascending slot order, then one for each active observer
  slot in ascending slot order. The lists of slot indices are strictly increasing, so
  no slot is called twice, and they contain exactly the active slots. A process call on
  a queue that holds this one record returns 1, leaves the queue empty and makes exactly
  these calls.
\<close>

theorem fanout_complete_ordered:
  assumes "wf_bus s" and "e < EVENT_QUEUE_SIZE" and "silent env s"
    and "ev = queue (g_queue s) ! e" and "row = g_subscribers s ! unat (type ev)"
    and "k = length (filter used row)" and "m = length (filter used (g_observers s))"
    and "calls = map (\<lambda>i. slot_call ev (row ! i)) (active_slots row) @
                 map (\<lambda>i. slot_call ev (g_observers s ! i)) (active_slots (g_observers s))"
  shows "dispatch_event proc env e s = Some (s, calls) \<and>
         (queue_inv (g_queue s) \<longrightarrow> g_initialized s \<longrightarrow> count (g_queue s) = 1 \<longrightarrow>
            head (g_queue s) = e \<longrightarrow>
            EVENT_Process (Suc (Suc fuel)) env s = Some (1, drained s, calls)) \<and>
         length calls = k + m \<and>
         length (active_slots row) = k \<and>
         length (active_slots (g_observers s)) = m \<and>
         sorted_wrt (<) (active_slots row) \<and>
         set (active_slots row) = {i. i < EVENT_SUBSCRIBER_MAX \<and> used (row ! i)} \<and>
         sorted_wrt (<) (active_slots (g_observers s)) \<and>
         set (active_slots (g_observers s)) =
           {i. i < EVENT_OBSERVER_MAX \<and> used (g_observers s ! i)}"
proof -
  from assms(1,2,4) have "unat (type ev) < EVENT_MAX_COUNT" by (simp add: wf_type)
  with assms(1,5) have len: "length row = EVENT_SUBSCRIBER_MAX" by (simp add: wf_row)
  from assms(1) have olen: "length (g_observers s) = EVENT_OBSERVER_MAX" by (simp add: wf_bus_def)
  have fo: "fanout s ev = calls"
    by (simp add: fanout_def assms(5,8))
  have d: "dispatch_event proc env e s = Some (s, calls)"
    using dispatch_event_silent [OF assms(1-3)] assms(4) fo by simp
  have p: "EVENT_Process (Suc (Suc fuel)) env s = Some (1, drained s, calls)"
    if inv: "queue_inv (g_queue s)" and ini: "g_initialized s"
      and one: "count (g_queue s) = 1" and hd: "head (g_queue s) = e"
  proof -
    from one have c: "count (g_queue s) < Suc (Suc fuel)" by simp
    from assms(2) hd have "live_records (g_queue s) = [ev]"
      by (simp add: live_records_def one assms(4))
    with EVENT_Process_silent [OF assms(1) inv assms(3) c ini] one fo show ?thesis by simp
  qed
  have l: "length calls = k + m"
    by (simp add: assms(6-8) active_slots_length)
  from d p l show ?thesis
    by (simp add: assms(6,7) active_slots_sorted active_slots_set active_slots_length len olen)
qed

lemma demo_bus1_wf: "wf_bus demo_bus1"
  by (simp add: demo_bus1_def wf_bus_Publish demo_bus_wf)

lemma demo_bus1_facts:
  "queue_inv (g_queue demo_bus1)" "g_initialized demo_bus1" "count (g_queue demo_bus1) = 1"
  "head (g_queue demo_bus1) = 0"
  by code_simp+

theorem fanout_complete_ordered_witness:
  "dispatch_event (\<lambda>_. None) quiet 0 demo_bus1 =
     Some (demo_bus1, [(11, make_event 1 2 None 0 7, 0), (99, make_event 1 2 None 0 7, 0)]) \<and>
   EVENT_Process (Suc (Suc 0)) quiet demo_bus1 =
     Some (1, drained demo_bus1,
           [(11, make_event 1 2 None 0 7, 0), (99, make_event 1 2 None 0 7, 0)])"
proof -
  let ?ev = "queue (g_queue demo_bus1) ! 0"
  let ?row = "g_subscribers demo_bus1 ! unat (type ?ev)"
  have e: "(0::nat) < EVENT_QUEUE_SIZE" by (simp add: cfg)
  have tr: "map (\<lambda>i. slot_call ?ev (?row ! i)) (active_slots ?row) @
            map (\<lambda>i. slot_call ?ev (g_observers demo_bus1 ! i)) (active_slots (g_observers demo_bus1))
          = [(11, make_event 1 2 None 0 7, 0), (99, make_event 1 2 None 0 7, 0)]"
    by code_simp
  note T = fanout_complete_ordered [OF demo_bus1_wf e silent_quiet refl refl refl refl tr [symmetric]]
  from T [of "\<lambda>_. None" 0, THEN conjunct1]
    T [of "\<lambda>_. None" 0, THEN conjunct2, THEN conjunct1] demo_bus1_facts
  show ?thesis by simp
qed

text \<open>
  The claim as written fails for a handler that calls back: on the demonstration bus one
  subscriber slot of type 1 and one observer slot are active and one record of type 1 is
  pending, yet processing it makes a single call when subscriber 11 unregisters
  observer 99.
\<close>

theorem fanout_reentrant_counterexample:
  "length (filter used (g_subscribers demo_bus1 ! 1)) = 1 \<and>
   length (filter used (g_observers demo_bus1)) = 1 \<and>
   map type (live_records (g_queue demo_bus1)) = [1] \<and>
   map_option (\<lambda>(r, s, t). (r, map fst t)) (EVENT_Process 2 unregisterer demo_bus1) =
     Some (1, [11])"
  by code_simp

section \<open>Payload\<close>

lemma data_size_make_event:
  "data_size (make_event ty p d n now) = (if d \<noteq> None \<and> 0 < unat n then n else 0)"
  by (simp add: make_event_def zero_event_def Let_def split: option.splits)

lemma data_make_event:
  "length bytes = unat n \<Longrightarrow> unat n \<le> EVENT_DATA_SIZE_MAX \<Longrightarrow>
     data (make_event ty p (Some bytes) n now) =
       bytes @ replicate (EVENT_DATA_SIZE_MAX - unat n) 0"
  by (auto simp: make_event_def zero_event_def Let_def)

text \<open>
  When a publish with a supplied payload of \<open>L\<close> bytes, \<open>0 < L\<close>, succeeds, then
  \<open>L \<le> 32\<close> and the record it appends to the pending ones has \<open>data_size = L\<close> and the
  published bytes as its first \<open>L\<close> payload bytes. As long as the registered handlers do
  not call back into the bus, a following process dispatches that record, after the ones
  pending before, to the fan-out of its type, and every call of that fan-out is shown
  this very record.
\<close>

lemma payload_round_trip_silent:
  assumes "wf_bus s" and "queue_inv (g_queue s)" and "silent env s"
    and "EVENT_Publish ty p (Some bytes) n now s = (0, s')"
    and "length bytes = unat n" and "0 < unat n"
    and "count (g_queue s') < fuel"
    and "ev = make_event ty p (Some bytes) n now"
  shows "unat n \<le> EVENT_DATA_SIZE_MAX \<and>
     data_size ev = n \<and> take (unat n) (data ev) = bytes \<and>
     live_records (g_queue s') = live_records (g_queue s) @ [ev] \<and>
     EVENT_Process fuel env s' =
       Some (int (count (g_queue s')), drained s',
             concat (map (fanout s') (live_records (g_queue s))) @ fanout s' ev) \<and>
     map (\<lambda>v. fst (snd v)) (fanout s' ev) = replicate (length (fanout s' ev)) ev"
proof -
  from assms(4) have ok: "fst (EVENT_Publish ty p (Some bytes) n now s) = 0"
    and s': "s' = snd (EVENT_Publish ty p (Some bytes) n now s)" by simp_all
  from ok have le: "unat n \<le> EVENT_DATA_SIZE_MAX" and ini: "g_initialized s"
    by (simp_all add: EVENT_Publish_ok_iff)
  have run: "publish_seq [(ty, p, Some bytes, n, now)] s = ([0], s')"
    using assms(4) by simp
  have all: "list_all (\<lambda>r. r = 0) [0 :: int]" by simp
  note P = publish_seq_ok [OF run all assms(1,2)]
  note wf = P [THEN conjunct1]
  note inv = P [THEN conjunct2, THEN conjunct1]
  note subs = P [THEN conjunct2, THEN conjunct2, THEN conjunct1]
  note obs = P [THEN conjunct2, THEN conjunct2, THEN conjunct2, THEN conjunct1]
  note lr = P [THEN conjunct2, THEN conjunct2, THEN conjunct2, THEN conjunct2, THEN conjunct2]
  from assms(3) have sil: "silent env s'" by (simp add: silent_cong [OF subs obs])
  from ini have ini': "g_initialized s'" by (simp add: s' registry_Publish)
  have lr': "live_records (g_queue s') = live_records (g_queue s) @ [ev]"
    using lr by (simp add: assms(8))
  have proc: "EVENT_Process fuel env s' =
       Some (int (count (g_queue s')), drained s',
             concat (map (fanout s') (live_records (g_queue s))) @ fanout s' ev)"
    using EVENT_Process_silent [OF wf inv sil assms(7) ini'] by (simp add: lr')
  have ds: "data_size ev = n"
    using assms(6) by (simp add: assms(8) data_size_make_event)
  have dt: "take (unat n) (data ev) = bytes"
    using assms(5) le by (simp add: assms(8) data_make_event)
  from le ds dt lr' proc show ?thesis
    by (simp only: fanout_events simp_thms)
qed

lemma demo_bus_sensor:
  "EVENT_Publish 2 1 (Some [0x01, 0x68]) 2 0 demo_bus =
     (0, snd (EVENT_Publish 2 1 (Some [0x01, 0x68]) 2 0 demo_bus))"
proof -
  have "fst (EVENT_Publish 2 1 (Some [0x01, 0x68]) 2 0 demo_bus) = 0"
    by (simp add: EVENT_Publish_ok_iff demo_bus_initialized demo_bus_count cfg)
  then show ?thesis by (simp add: prod_eq_iff)
qed

lemma payload_round_trip_example:
  "data_size (make_event 2 1 (Some [0x01, 0x68]) 2 0) = 2 \<and>
   take 2 (data (make_event 2 1 (Some [0x01, 0x68]) 2 0)) = [0x01, 0x68] \<and>
   map_option (\<lambda>(r, s, t). (r, t))
     (EVENT_Process 2 quiet (snd (EVENT_Publish 2 1 (Some [0x01, 0x68]) 2 0 demo_bus))) =
     Some (1, [(99, make_event 2 1 (Some [0x01, 0x68]) 2 0, 0)])"
proof -
  let ?s' = "snd (EVENT_Publish 2 1 (Some [0x01, 0x68]) 2 0 demo_bus)"
  let ?ev = "make_event 2 1 (Some [0x01, 0x68]) 2 0"
  have len: "length [0x01, 0x68 :: u8] = unat (2 :: u8)" by simp
  have pos: "0 < unat (2 :: u8)" by simp
  have cnt: "count (g_queue ?s') < 2" by code_simp
  have lr: "live_records (g_queue demo_bus) = []"
    by (simp add: live_records_def demo_bus_count)
  have fo: "fanout ?s' ?ev = [(99, ?ev, 0)]" by code_simp
  have c1: "count (g_queue ?s') = 1" by code_simp
  from payload_round_trip_silent [OF demo_bus_wf demo_bus_inv silent_quiet demo_bus_sensor len pos cnt refl]
  show ?thesis by (simp add: lr fo c1)
qed

section \<open>A record overwritten while it is dispatched\<close>

lemma silent_republisher:
  assumes "list_all (\<lambda>sl. used sl \<longrightarrow> callback sl \<noteq> 11)
             (concat (g_subscribers s) @ g_observers s)"
  shows "silent republisher s"
  using assms unfolding silent_def republisher_def list_all_iff
  by (metis Un_iff set_append)

lemma full_bus_facts:
  "g_initialized full_bus" "\<not> queue_is_empty (g_queue full_bus)"
  "queue_pop (g_queue full_bus) = (Some 0, g_queue popped_bus)"
  by code_simp+

lemma overwritten_bus_facts:
  "wf_bus overwritten_bus" "queue_inv (g_queue overwritten_bus)"
  "count (g_queue overwritten_bus) = 64"
  "list_all (\<lambda>sl. used sl \<longrightarrow> callback sl \<noteq> 11)
     (concat (g_subscribers overwritten_bus) @ g_observers overwritten_bus)"
  by code_simp+

lemma popped_bus_dispatch:
  "dispatch_event proc republisher 0 popped_bus =
     Some (overwritten_bus,
           [(11, make_event 2 1 (Some [0x01, 0x68]) 2 0, 0), (99, make_event 4 9 None 0 0, 0)])"
  by code_simp

text \<open>
  Claim C5 says that the record dispatched for a successful publish with a payload of
  \<open>L\<close> bytes has \<open>data_size = L\<close> and the published bytes as its first \<open>L\<close> payload
  bytes, the \<open>[0x01, 0x68]\<close> publish included. The code does not keep to it.
  \<^verbatim>\<open>queue_pop\<close> hands \<^verbatim>\<open>EVENT_Process\<close> a pointer to the slot it has just released,
  where \<^verbatim>\<open>queue_push\<close> had stored a copy; when the queue was full, the released slot is
  the one the next push writes. Here the \<open>[0x01, 0x68]\<close> publish and 63 more succeed;
  process pops the payload record and calls subscriber 11 with it; 11 publishes a
  follow-up record, which lands in that slot; observer 99 is then called, for the record
  in flight, with the follow-up record, of \<open>data_size 0\<close>. No later call of the run shows
  the payload either: every record then pending has \<open>data_size 0\<close>. Without the publish,
  the same dispatch shows both handlers the payload record.
\<close>

theorem in_flight_record_overwritten:
  "EVENT_calls 0 quiet
     [Init, Subscribe 2 11 0, RegisterObserver 99 0, Publish 2 1 (Some [0x01, 0x68]) 2 0] bus0 =
     Some ([0, 0, 0, 0], sensor_bus, []) \<and>
   publish_seq (replicate 63 (3, 0, None, 0, 0)) sensor_bus = (replicate 63 0, full_bus) \<and>
   hd (live_records (g_queue full_bus)) = make_event 2 1 (Some [0x01, 0x68]) 2 0 \<and>
   EVENT_Process (Suc 65) republisher full_bus =
     Some (65, drained overwritten_bus,
           [(11, make_event 2 1 (Some [0x01, 0x68]) 2 0, 0), (99, make_event 4 9 None 0 0, 0)] @
           concat (map (fanout overwritten_bus) (live_records (g_queue overwritten_bus)))) \<and>
   data_size (make_event 4 9 None 0 0) = 0 \<and>
   list_all (\<lambda>ev. data_size ev = 0) (live_records (g_queue overwritten_bus)) \<and>
   dispatch_event (\<lambda>_. None) quiet 0 popped_bus =
     Some (popped_bus,
           [(11, make_event 2 1 (Some [0x01, 0x68]) 2 0, 0),
            (99, make_event 2 1 (Some [0x01, 0x68]) 2 0, 0)])"
proof -
  have built: "EVENT_calls 0 quiet
     [Init, Subscribe 2 11 0, RegisterObserver 99 0, Publish 2 1 (Some [0x01, 0x68]) 2 0] bus0 =
     Some ([0, 0, 0, 0], sensor_bus, [])"
    by code_simp
  have fill: "publish_seq (replicate 63 (3, 0, None, 0, 0)) sensor_bus = (replicate 63 0, full_bus)"
    by code_simp
  have oldest: "hd (live_records (g_queue full_bus)) = make_event 2 1 (Some [0x01, 0x68]) 2 0"
    by code_simp
  have sil: "silent republisher overwritten_bus"
    using overwritten_bus_facts(4) by (rule silent_republisher)
  have cnt: "count (g_queue overwritten_bus) < 65"
    by (simp add: overwritten_bus_facts(3))
  have rest: "process_loop 65 republisher 1 overwritten_bus =
      Some (65, drained overwritten_bus,
            concat (map (fanout overwritten_bus) (live_records (g_queue overwritten_bus))))"
    using process_loop_silent [OF overwritten_bus_facts(1,2) sil cnt, of 1]
    by (simp add: overwritten_bus_facts(3))
  have same: "full_bus\<lparr>g_queue := g_queue popped_bus\<rparr> = popped_bus"
    by (simp add: popped_bus_def)
  have run: "EVENT_Process (Suc 65) republisher full_bus =
     Some (65, drained overwritten_bus,
           [(11, make_event 2 1 (Some [0x01, 0x68]) 2 0, 0), (99, make_event 4 9 None 0 0, 0)] @
           concat (map (fanout overwritten_bus) (live_records (g_queue overwritten_bus))))"
    unfolding EVENT_Process_def process_loop.simps
    by (simp add: full_bus_facts same popped_bus_dispatch rest)
  have small: "data_size (make_event 4 9 None 0 0) = 0"
    by (simp add: data_size_make_event)
  have later: "list_all (\<lambda>ev. data_size ev = 0) (live_records (g_queue overwritten_bus))"
    by code_simp
  have plain: "dispatch_event (\<lambda>_. None) quiet 0 popped_bus =
     Some (popped_bus,
           [(11, make_event 2 1 (Some [0x01, 0x68]) 2 0, 0),
            (99, make_event 2 1 (Some [0x01, 0x68]) 2 0, 0)])"
    by code_simp
  from built fill oldest run small later plain show ?thesis by (intro conjI)
qed

section \<open>Capacity\<close>

text \<open>
  Claim C3. Capacity enforcement: after 64 successful publishes with nothing in between,
  any further publish returns \<open>-1\<close> and leaves the state as it is, and the check that
  rejects an otherwise valid one is that of \<^verbatim>\<open>queue_push\<close> (queue full). Whenever a
  following process call returns, with whatever handlers, the queue is empty and a
  publish with a valid type and payload size succeeds; with handlers that do not call
  back into the bus, a process call bounded by more than 64 iterations does return,
  having drained 64 records.
\<close>

theorem capacity_enforced:
  assumes "publish_seq ps s = (rs, s')" and "length ps = EVENT_QUEUE_SIZE"
    and "list_all (\<lambda>r. r = 0) rs"
  shows "EVENT_Publish ty p d n now s' = (- 1, s') \<and>
     queue_push (make_event ty p d n now) (g_queue s') = (- 1, g_queue s') \<and>
     (EVENT_Process fuel env s' = Some (r, s2, t) \<longrightarrow> unat ty < EVENT_MAX_COUNT \<longrightarrow>
        (d = None \<or> unat n \<le> EVENT_DATA_SIZE_MAX) \<longrightarrow>
        count (g_queue s2) = 0 \<and> fst (EVENT_Publish ty p d n now s2) = 0) \<and>
     (wf_bus s \<longrightarrow> queue_inv (g_queue s) \<longrightarrow> silent env s \<longrightarrow> EVENT_QUEUE_SIZE < fuel \<longrightarrow>
        (\<exists>t. EVENT_Process fuel env s' = Some (64, drained s', t)))"
proof -
  from publish_seq_count [OF assms(1,3)] assms(2)
  have cnt: "count (g_queue s') = count (g_queue s) + EVENT_QUEUE_SIZE"
    and ini: "g_initialized s'"
    by (auto simp: cfg)
  from cnt have full: "\<not> count (g_queue s') < EVENT_QUEUE_SIZE" by simp
  have a: "EVENT_Publish ty p d n now s' = (- 1, s')"
    by (rule EVENT_Publish_fail) (simp add: EVENT_Publish_ok_iff full)
  have b: "queue_push (make_event ty p d n now) (g_queue s') = (- 1, g_queue s')"
    using full by (simp add: queue_push_def)
  have c: "count (g_queue s2) = 0 \<and> fst (EVENT_Publish ty p d n now s2) = 0"
    if run: "EVENT_Process fuel env s' = Some (r, s2, t)" and ty: "unat ty < EVENT_MAX_COUNT"
      and d: "d = None \<or> unat n \<le> EVENT_DATA_SIZE_MAX"
  proof -
    from run ini have loop: "process_loop fuel env 0 s' = Some (r, s2, t)"
      by (simp add: EVENT_Process_def)
    from loop have e: "count (g_queue s2) = 0" by (rule process_loop_empties)
    from ini loop have "g_initialized s2" by (rule process_loop_initialized)
    with e ty d show ?thesis by (simp add: EVENT_Publish_ok_iff cfg)
  qed
  have d: "\<exists>t. EVENT_Process fuel env s' = Some (64, drained s', t)"
    if wf: "wf_bus s" and inv: "queue_inv (g_queue s)" and sil: "silent env s"
      and fuel: "EVENT_QUEUE_SIZE < fuel"
  proof -
    note P = publish_seq_ok [OF assms(1,3) wf inv]
    note wf' = P [THEN conjunct1]
    note inv' = P [THEN conjunct2, THEN conjunct1]
    note subs = P [THEN conjunct2, THEN conjunct2, THEN conjunct1]
    note obs = P [THEN conjunct2, THEN conjunct2, THEN conjunct2, THEN conjunct1]
    from sil have sil': "silent env s'" by (simp add: silent_cong [OF subs obs])
    from inv' cnt have c64: "count (g_queue s') = 64" by (simp add: queue_inv_def cfg)
    with fuel have "count (g_queue s') < fuel" by (simp add: cfg)
    from EVENT_Process_silent [OF wf' inv' sil' this ini] c64 show ?thesis by simp
  qed
  from a b c d show ?thesis by blast
qed

theorem capacity_enforced_witness:
  "EVENT_Publish 1 0 None 0 0 (snd (publish_seq (replicate 64 (1, 0, None, 0, 0)) demo_bus)) =
     (- 1, snd (publish_seq (replicate 64 (1, 0, None, 0, 0)) demo_bus)) \<and>
   (\<exists>t. EVENT_Process 65 quiet (snd (publish_seq (replicate 64 (1, 0, None, 0, 0)) demo_bus)) =
      Some (64, drained (snd (publish_seq (replicate 64 (1, 0, None, 0, 0)) demo_bus)), t)) \<and>
   fst (EVENT_Publish 1 0 None 0 0
          (drained (snd (publish_seq (replicate 64 (1, 0, None, 0, 0)) demo_bus)))) = 0"
proof -
  let ?ps = "replicate 64 (1, 0, None, 0, 0) :: publish_args list"
  let ?s' = "snd (publish_seq ?ps demo_bus)"
  have ok: "fst (publish_seq ?ps demo_bus) = replicate 64 0" by code_simp
  have run: "publish_seq ?ps demo_bus = (replicate 64 0, ?s')"
    using ok by (simp add: prod_eq_iff)
  have len: "length ?ps = EVENT_QUEUE_SIZE" by (simp add: cfg)
  have all: "list_all (\<lambda>r. r = 0) (replicate 64 (0 :: int))" by (simp add: list_all_iff)
  note T = capacity_enforced [OF run len all, where ty = 1 and p = 0 and d = None and n = 0
      and now = 0 and fuel = 65 and env = quiet]
  have fuel: "EVENT_QUEUE_SIZE < 65" by (simp add: cfg)
  from T demo_bus_wf demo_bus_inv fuel obtain t where
    t: "EVENT_Process 65 quiet ?s' = Some (64, drained ?s', t)"
    using silent_quiet [of demo_bus] by blast
  from T [where r = 64 and ?s2.0 = "drained ?s'" and t = t] t
  have "fst (EVENT_Publish 1 0 None 0 0 (drained ?s')) = 0"
    by (simp add: cfg)
  with T t show ?thesis by blast
qed

section \<open>Payload size boundary\<close>



section \<open>Initialisation\<close>

lemma process_loop_empty:
  "count (g_queue s) = 0 \<Longrightarrow> process_loop (Suc n) env cnt s = Some (cnt, s, [])"
  by (simp add: queue_is_empty_def)

text \<open>
  Claim C7. Init is an idempotent hard reset: from any state at all, init returns \<open>0\<close> and
  leaves one and the same state: initialised, queue empty, every subscriber and observer
  slot inactive. Calling it again changes nothing, and a process right after it returns
  \<open>0\<close> without invoking any handler, whatever was registered or queued before and
  whatever the handlers would do.
\<close>

theorem init_hard_reset:
  "fst (EVENT_Init s) = 0 \<and>
   snd (EVENT_Init s) = snd (EVENT_Init bus0) \<and>
   EVENT_Init (snd (EVENT_Init s)) = EVENT_Init s \<and>
   g_initialized (snd (EVENT_Init s)) \<and>
   count (g_queue (snd (EVENT_Init s))) = 0 \<and>
   live_records (g_queue (snd (EVENT_Init s))) = [] \<and>
   list_all (\<lambda>row. list_all (\<lambda>sl. \<not> used sl) row) (g_subscribers (snd (EVENT_Init s))) \<and>
   list_all (\<lambda>sl. \<not> used sl) (g_observers (snd (EVENT_Init s))) \<and>
   EVENT_Process (Suc fuel) env (snd (EVENT_Init s)) = Some (0, snd (EVENT_Init s), []) \<and>
   EVENT_calls (Suc fuel) env [Init, Process] s = Some ([0, 0], snd (EVENT_Init s), [])"
proof -
  have p: "EVENT_Process (Suc fuel) env (snd (EVENT_Init s)) = Some (0, snd (EVENT_Init s), [])"
    by (simp add: EVENT_Process_def EVENT_Init_def queue_is_empty_def queue_init_def)
  have u: "list_all (\<lambda>row. list_all (\<lambda>sl. \<not> used sl) row) (g_subscribers (snd (EVENT_Init s)))"
    "list_all (\<lambda>sl. \<not> used sl) (g_observers (snd (EVENT_Init s)))"
    by (simp_all add: EVENT_Init_def zero_subscribers_def zero_observers_def zero_slot_def
        list_all_iff)
  have c: "EVENT_calls (Suc fuel) env [Init, Process] s = Some ([0, 0], snd (EVENT_Init s), [])"
    using p by (simp add: EVENT_call_def api_step_def EVENT_Init_def)
  from p u c show ?thesis
    by (simp add: EVENT_Init_def queue_init_def live_records_def bus0_def)
qed

theorem init_hard_reset_witness:
  "EVENT_calls (Suc 0) quiet [Init, Process] demo_bus1 =
     Some ([0, 0], snd (EVENT_Init demo_bus1), []) \<and>
   snd (EVENT_Init demo_bus1) = snd (EVENT_Init bus0) \<and>
   EVENT_Init (snd (EVENT_Init demo_bus1)) = EVENT_Init demo_bus1"
  using init_hard_reset [of demo_bus1 0 quiet] by blast

section \<open>Before initialisation\<close>

lemma pre_init_call:
  assumes "Init \<noteq> c"
  shows "EVENT_call fuel env c bus0 = Some (pre_init_result c, bus0, [])"
proof (cases c)
  case Init
  with assms show ?thesis by simp
next
  case Process
  then show ?thesis by (simp add: EVENT_call_def EVENT_Process_def bus0_def)
next
  case ClearQueue
  then show ?thesis by (simp add: EVENT_call_def api_step_def EVENT_ClearQueue_def bus0_def)
next
  case GetCount
  then show ?thesis
    by (simp add: EVENT_call_def api_step_def EVENT_GetCount_def queue_get_count_def bus0_def
        queue_init_def)
qed (simp_all add: EVENT_call_def api_step_def EVENT_Subscribe_def EVENT_Unsubscribe_def
      EVENT_Publish_def EVENT_RegisterObserver_def EVENT_UnregisterObserver_def bus0_def)

text \<open>
  Claim C9. Before the first init the state is the zeroed one the program starts in, and
  it stays so: any run of public calls that does not contain init leaves it exactly as
  it is and invokes no handler; subscribe, unsubscribe, publish, register_observer and
  unregister_observer return \<open>-1\<close>, process returns \<open>0\<close>, and clear_queue and get_count
  return \<open>0\<close>. The rejections do not depend on the rest of the state: in any
  uninitialised state the five return \<open>-1\<close> and process returns \<open>0\<close>, state unchanged.
\<close>

theorem pre_init_rejects:
  "(Init \<notin> set cs \<longrightarrow>
      EVENT_calls fuel env cs bus0 = Some (map pre_init_result cs, bus0, [])) \<and>
   (\<not> g_initialized s \<longrightarrow>
      EVENT_Subscribe ty cb a s = (- 1, s) \<and>
      EVENT_Unsubscribe ty cb a s = (- 1, s) \<and>
      EVENT_Publish ty p d n now s = (- 1, s) \<and>
      EVENT_RegisterObserver cb a s = (- 1, s) \<and>
      EVENT_UnregisterObserver cb s = (- 1, s) \<and>
      EVENT_Process fuel env s = Some (0, s, []) \<and>
      g_queue (snd (EVENT_ClearQueue s)) = queue_init \<and>
      EVENT_GetCount s = count (g_queue s))"
proof (intro conjI impI)
  assume "Init \<notin> set cs"
  then show "EVENT_calls fuel env cs bus0 = Some (map pre_init_result cs, bus0, [])"
    by (induction cs) (simp_all add: pre_init_call)
qed (simp_all add: EVENT_Subscribe_def EVENT_Unsubscribe_def EVENT_Publish_def
      EVENT_RegisterObserver_def EVENT_UnregisterObserver_def EVENT_Process_def
      EVENT_ClearQueue_def EVENT_GetCount_def queue_get_count_def)

theorem pre_init_rejects_witness:
  "EVENT_calls 0 quiet
     [Subscribe 1 11 0, Publish 1 0 None 0 0, RegisterObserver 99 0, Process, GetCount,
      ClearQueue, Unsubscribe 1 11 0, UnregisterObserver 99] bus0 =
     Some ([- 1, - 1, - 1, 0, 0, 0, - 1, - 1], bus0, []) \<and>
   EVENT_Publish 1 0 None 0 0 bus0 = (- 1, bus0)"
proof -
  have "\<not> g_initialized bus0" by (simp add: bus0_def)
  with pre_init_rejects [of "[Subscribe 1 11 0, Publish 1 0 None 0 0, RegisterObserver 99 0,
      Process, GetCount, ClearQueue, Unsubscribe 1 11 0, UnregisterObserver 99]" 0 quiet bus0
      1 _ _ 0 None 0 0]
  show ?thesis by simp
qed

section \<open>Errors leave the state alone\<close>

lemma process_loop_result_ge:
  "process_loop n env cnt s = Some (r, s', t) \<Longrightarrow> cnt \<le> r"
proof (induction n arbitrary: s cnt r s' t)
  case 0
  then show ?case by simp
next
  case (Suc n)
  show ?case
  proof (cases "queue_is_empty (g_queue s)")
    case True
    with Suc.prems show ?thesis by simp
  next
    case False
    then have "queue_pop (g_queue s) = (Some (head (g_queue s)), snd (queue_pop (g_queue s)))"
      by (simp add: queue_is_empty_def queue_pop_def)
    with Suc.prems False obtain s1 t2 where "process_loop n env (cnt + 1) s1 = Some (r, s', t2)"
      by (auto split: option.splits prod.splits)
    then have "cnt + 1 \<le> r" by (rule Suc.IH)
    then show ?thesis by simp
  qed
qed

lemma plain_step_error:
  "fst (plain_step c s) < 0 \<Longrightarrow> snd (plain_step c s) = s"
proof (cases c)
  case Process
  then show ?thesis by (simp add: plain_step_def)
qed (auto simp: plain_step_simps EVENT_Init_def EVENT_Subscribe_def EVENT_Unsubscribe_def
      EVENT_Publish_def EVENT_ClearQueue_def EVENT_RegisterObserver_def
      EVENT_UnregisterObserver_def split: option.splits prod.splits if_splits)

lemma EVENT_call_error:
  assumes "EVENT_call fuel env c s = Some (r, s', t)" and "r < 0"
  shows "s' = s \<and> t = []"
proof (cases "c = Process")
  case True
  with assms(1) have "EVENT_Process fuel env s = Some (r, s', t)"
    by (simp add: EVENT_call_def)
  with assms(2) show ?thesis
    by (auto simp: EVENT_Process_def split: if_splits dest: process_loop_result_ge)
next
  case False
  with assms show ?thesis
    by (auto simp: EVENT_call_def api_step_plain plain_step_error)
qed

text \<open>Deactivating a matching slot removes exactly one match.\<close>

lemma filter_update_length:
  "i < length xs \<Longrightarrow> P (xs ! i) \<Longrightarrow> \<not> P y \<Longrightarrow>
     length (filter P (xs[i := y])) = length (filter P xs) - 1"
proof (induction xs arbitrary: i)
  case Nil
  then show ?case by simp
next
  case (Cons x xs)
  show ?case
  proof (cases i)
    case 0
    with Cons.prems show ?thesis by simp
  next
    case (Suc j)
    with Cons.prems have "length (filter P (xs[j := y])) = length (filter P xs) - 1"
      by (intro Cons.IH) simp_all
    moreover from Suc Cons.prems have "0 < length (filter P xs)"
      by (auto simp: filter_empty_conv intro!: bexI [of _ "xs ! j"])
    ultimately show ?thesis using Suc by simp
  qed
qed

lemma find_matches:
  assumes "length row = EVENT_SUBSCRIBER_MAX"
  shows "find (\<lambda>i. slot_matches cb a (row ! i)) [0..<EVENT_SUBSCRIBER_MAX] = None \<longleftrightarrow>
           filter (slot_matches cb a) row = []"
proof -
  have "filter (slot_matches cb a) row = [] \<longleftrightarrow> (\<forall>i<length row. \<not> slot_matches cb a (row ! i))"
    by (simp add: filter_empty_conv all_set_conv_all_nth)
  then show ?thesis by (simp add: find_None_iff assms)
qed

lemma EVENT_Unsubscribe_alt:
  "EVENT_Unsubscribe t cb a s =
     (if \<not> g_initialized s \<or> unat t \<ge> EVENT_MAX_COUNT \<or> cb = 0 then (- 1, s)
      else case find (\<lambda>i. slot_matches cb a (g_subscribers s ! unat t ! i))
                  [0..<EVENT_SUBSCRIBER_MAX] of
        Some i \<Rightarrow> (0, s\<lparr>g_subscribers := (g_subscribers s)
                     [unat t := (g_subscribers s ! unat t)
                        [i := (g_subscribers s ! unat t ! i)\<lparr>used := False\<rparr>]]\<rparr>)
      | None \<Rightarrow> (- 1, s))"
  by (simp add: EVENT_Unsubscribe_def slot_matches_def)

lemma EVENT_Unsubscribe_absent:
  assumes "wf_bus s" and "registrations s t cb a = 0"
  shows "EVENT_Unsubscribe t cb a s = (- 1, s)"
proof (cases "\<not> g_initialized s \<or> unat t \<ge> EVENT_MAX_COUNT \<or> cb = 0")
  case True
  then show ?thesis by (auto simp: EVENT_Unsubscribe_def)
next
  case False
  then have "length (g_subscribers s ! unat t) = EVENT_SUBSCRIBER_MAX"
    using assms(1) by (simp add: wf_row)
  from find_matches [OF this, of cb a] assms(2) False show ?thesis
    by (simp add: EVENT_Unsubscribe_alt registrations_def)
qed

lemma EVENT_Unsubscribe_present:
  assumes "wf_bus s" and "g_initialized s" and "unat t < EVENT_MAX_COUNT" and "cb \<noteq> 0"
    and "0 < registrations s t cb a"
  shows "fst (EVENT_Unsubscribe t cb a s) = 0 \<and>
     registrations (snd (EVENT_Unsubscribe t cb a s)) t cb a = registrations s t cb a - 1"
proof -
  let ?row = "g_subscribers s ! unat t"
  from assms(1,3) have len: "length ?row = EVENT_SUBSCRIBER_MAX" by (rule wf_row)
  from assms(1,3) have tl: "unat t < length (g_subscribers s)" by (simp add: wf_bus_def)
  from assms(5) have "filter (slot_matches cb a) ?row \<noteq> []"
    by (auto simp: registrations_def)
  with find_matches [OF len, of cb a] obtain i where
    i: "find (\<lambda>i. slot_matches cb a (?row ! i)) [0..<EVENT_SUBSCRIBER_MAX] = Some i"
    by auto
  then have m: "slot_matches cb a (?row ! i)" and il: "i < length ?row"
    by (auto simp: find_Some_iff len)
  have n: "\<not> slot_matches cb a ((?row ! i)\<lparr>used := False\<rparr>)"
    by (simp add: slot_matches_def)
  from filter_update_length [OF il m n]
  show ?thesis
    using assms(2,3,4) i tl by (simp add: EVENT_Unsubscribe_alt registrations_def)
qed

text \<open>The slot a successful unsubscribe deactivates is the first match, and nothing else changes.\<close>

lemma first_match_index:
  assumes "i < length row" and "slot_matches cb a (row ! i)"
    and "\<forall>j<i. \<not> slot_matches cb a (row ! j)"
  shows "first_match cb a row = i"
proof -
  have "takeWhile (\<lambda>sl. \<not> slot_matches cb a sl) row = take i row"
    using assms by (intro takeWhile_eq_take_P_nth) simp_all
  with assms(1) show ?thesis by (simp add: first_match_def)
qed

lemma EVENT_Unsubscribe_exact:
  assumes "wf_bus s" and "g_initialized s" and "unat t < EVENT_MAX_COUNT" and "cb \<noteq> 0"
    and "0 < registrations s t cb a"
  shows "first_match cb a (g_subscribers s ! unat t) < EVENT_SUBSCRIBER_MAX \<and>
     slot_matches cb a (g_subscribers s ! unat t ! first_match cb a (g_subscribers s ! unat t)) \<and>
     (\<forall>j<first_match cb a (g_subscribers s ! unat t).
        \<not> slot_matches cb a (g_subscribers s ! unat t ! j)) \<and>
     EVENT_Unsubscribe t cb a s =
       (0, s\<lparr>g_subscribers := (g_subscribers s)
              [unat t := (g_subscribers s ! unat t)
                 [first_match cb a (g_subscribers s ! unat t) :=
                    (g_subscribers s ! unat t ! first_match cb a (g_subscribers s ! unat t))
                      \<lparr>used := False\<rparr>]]\<rparr>)"
proof -
  let ?row = "g_subscribers s ! unat t"
  from assms(1,3) have len: "length ?row = EVENT_SUBSCRIBER_MAX" by (rule wf_row)
  from assms(5) have "filter (slot_matches cb a) ?row \<noteq> []"
    by (auto simp: registrations_def)
  with find_matches [OF len, of cb a] obtain i where
    i: "find (\<lambda>i. slot_matches cb a (?row ! i)) [0..<EVENT_SUBSCRIBER_MAX] = Some i"
    by auto
  then have m: "slot_matches cb a (?row ! i)" and il: "i < length ?row"
    and b: "\<forall>j<i. \<not> slot_matches cb a (?row ! j)"
    by (auto simp: find_Some_iff len)
  from first_match_index [OF il m b] have fm: "first_match cb a ?row = i" .
  from assms(2,3,4) i have "EVENT_Unsubscribe t cb a s =
       (0, s\<lparr>g_subscribers := (g_subscribers s) [unat t := ?row [i := (?row ! i)\<lparr>used := False\<rparr>]]\<rparr>)"
    by (simp add: EVENT_Unsubscribe_alt)
  with m il b len show ?thesis by (simp add: fm)
qed

lemma EVENT_Unsubscribe_ok_iff:
  assumes "wf_bus s"
  shows "fst (EVENT_Unsubscribe t cb a s) = 0 \<longleftrightarrow>
     g_initialized s \<and> unat t < EVENT_MAX_COUNT \<and> cb \<noteq> 0 \<and> 0 < registrations s t cb a"
proof
  assume ok: "fst (EVENT_Unsubscribe t cb a s) = 0"
  then have g: "g_initialized s \<and> unat t < EVENT_MAX_COUNT \<and> cb \<noteq> 0"
    by (auto simp: EVENT_Unsubscribe_def split: if_splits)
  have "registrations s t cb a \<noteq> 0"
  proof
    assume "registrations s t cb a = 0"
    from EVENT_Unsubscribe_absent [OF assms this] ok show False by simp
  qed
  with g show "g_initialized s \<and> unat t < EVENT_MAX_COUNT \<and> cb \<noteq> 0 \<and> 0 < registrations s t cb a"
    by simp
next
  assume "g_initialized s \<and> unat t < EVENT_MAX_COUNT \<and> cb \<noteq> 0 \<and> 0 < registrations s t cb a"
  then have "g_initialized s" "unat t < EVENT_MAX_COUNT" "cb \<noteq> 0" "0 < registrations s t cb a"
    by simp_all
  from EVENT_Unsubscribe_present [OF assms this] show "fst (EVENT_Unsubscribe t cb a s) = 0"
    by (rule conjunct1)
qed

lemma EVENT_Unsubscribe_twice_iff:
  assumes "wf_bus s" and "g_initialized s" and "unat t < EVENT_MAX_COUNT" and "cb \<noteq> 0"
  shows "fst (EVENT_Unsubscribe t cb a s) = 0 \<and>
         fst (EVENT_Unsubscribe t cb a (snd (EVENT_Unsubscribe t cb a s))) \<noteq> 0 \<longleftrightarrow>
         registrations s t cb a = 1"
proof (cases "0 < registrations s t cb a")
  case False
  with EVENT_Unsubscribe_ok_iff [OF assms(1), of t cb a] show ?thesis by simp
next
  case True
  let ?s1 = "snd (EVENT_Unsubscribe t cb a s)"
  from EVENT_Unsubscribe_present [OF assms True]
  have ok: "fst (EVENT_Unsubscribe t cb a s) = 0"
    and r1: "registrations ?s1 t cb a = registrations s t cb a - 1" by simp_all
  from assms(1) have wf1: "wf_bus ?s1" by (rule wf_bus_Unsubscribe)
  from plain_step_initialized [OF assms(2), of "Unsubscribe t cb a"]
  have ini1: "g_initialized ?s1" by (simp add: plain_step_simps)
  from EVENT_Unsubscribe_ok_iff [OF wf1, of t cb a] ini1 assms(3,4) r1
  have "fst (EVENT_Unsubscribe t cb a ?s1) = 0 \<longleftrightarrow> 1 < registrations s t cb a"
    by simp
  with ok True show ?thesis by auto
qed

text \<open>
  Claim C8, as the code has it. Every public call that returns an error (a negative
  value) leaves the whole state exactly as it was and invokes no handler; in particular
  a failed publish returns \<open>-1\<close> and enqueues nothing, and unsubscribing a (callback,
  argument) pair that no active slot of the type holds returns \<open>-1\<close> and changes nothing.
  An unsubscribe succeeds exactly when the bus is initialised, the type valid, the
  callback not null and the pair held by some active slot of the type; it then clears
  the \<open>used\<close> flag of the first such slot in slot order and changes nothing else in the
  state, so it removes one registration of the pair. Hence of two consecutive identical
  unsubscribe calls the first succeeds and the second fails exactly when the pair is
  registered in exactly one slot of the type.
\<close>

theorem error_atomicity:
  "(EVENT_call fuel env c s = Some (r, s', t) \<longrightarrow> r < 0 \<longrightarrow> s' = s \<and> t = []) \<and>
   (fst (EVENT_Publish ty p d n now s) \<noteq> 0 \<longrightarrow> EVENT_Publish ty p d n now s = (- 1, s)) \<and>
   (wf_bus s \<longrightarrow> registrations s ty cb a = 0 \<longrightarrow> EVENT_Unsubscribe ty cb a s = (- 1, s)) \<and>
   (wf_bus s \<longrightarrow> g_initialized s \<longrightarrow> unat ty < EVENT_MAX_COUNT \<longrightarrow> cb \<noteq> 0 \<longrightarrow>
      0 < registrations s ty cb a \<longrightarrow>
      fst (EVENT_Unsubscribe ty cb a s) = 0 \<and>
      registrations (snd (EVENT_Unsubscribe ty cb a s)) ty cb a = registrations s ty cb a - 1) \<and>
   (wf_bus s \<longrightarrow> g_initialized s \<longrightarrow> unat ty < EVENT_MAX_COUNT \<longrightarrow> cb \<noteq> 0 \<longrightarrow>
      registrations s ty cb a = 1 \<longrightarrow>
      fst (EVENT_Unsubscribe ty cb a s) = 0 \<and>
      EVENT_Unsubscribe ty cb a (snd (EVENT_Unsubscribe ty cb a s)) =
        (- 1, snd (EVENT_Unsubscribe ty cb a s))) \<and>
   (wf_bus s \<longrightarrow> g_initialized s \<longrightarrow> unat ty < EVENT_MAX_COUNT \<longrightarrow> cb \<noteq> 0 \<longrightarrow>
      0 < registrations s ty cb a \<longrightarrow>
      first_match cb a (g_subscribers s ! unat ty) < EVENT_SUBSCRIBER_MAX \<and>
      slot_matches cb a (g_subscribers s ! unat ty ! first_match cb a (g_subscribers s ! unat ty)) \<and>
      (\<forall>j<first_match cb a (g_subscribers s ! unat ty).
         \<not> slot_matches cb a (g_subscribers s ! unat ty ! j)) \<and>
      EVENT_Unsubscribe ty cb a s =
        (0, s\<lparr>g_subscribers := (g_subscribers s)
               [unat ty := (g_subscribers s ! unat ty)
                  [first_match cb a (g_subscribers s ! unat ty) :=
                     (g_subscribers s ! unat ty ! first_match cb a (g_subscribers s ! unat ty))
                       \<lparr>used := False\<rparr>]]\<rparr>)) \<and>
   (wf_bus s \<longrightarrow>
      (fst (EVENT_Unsubscribe ty cb a s) = 0 \<longleftrightarrow>
         g_initialized s \<and> unat ty < EVENT_MAX_COUNT \<and> cb \<noteq> 0 \<and> 0 < registrations s ty cb a)) \<and>
   (wf_bus s \<longrightarrow> g_initialized s \<longrightarrow> unat ty < EVENT_MAX_COUNT \<longrightarrow> cb \<noteq> 0 \<longrightarrow>
      (fst (EVENT_Unsubscribe ty cb a s) = 0 \<and>
       fst (EVENT_Unsubscribe ty cb a (snd (EVENT_Unsubscribe ty cb a s))) \<noteq> 0 \<longleftrightarrow>
       registrations s ty cb a = 1))"
proof -
  have twice: "fst (EVENT_Unsubscribe ty cb a s) = 0 \<and>
      EVENT_Unsubscribe ty cb a (snd (EVENT_Unsubscribe ty cb a s)) =
        (- 1, snd (EVENT_Unsubscribe ty cb a s))"
    if wf: "wf_bus s" and ini: "g_initialized s" and ty: "unat ty < EVENT_MAX_COUNT"
      and cb: "cb \<noteq> 0" and one: "registrations s ty cb a = 1"
  proof -
    from one have "0 < registrations s ty cb a" by simp
    from EVENT_Unsubscribe_present [OF wf ini ty cb this] one
    have ok: "fst (EVENT_Unsubscribe ty cb a s) = 0"
      and none: "registrations (snd (EVENT_Unsubscribe ty cb a s)) ty cb a = 0" by simp_all
    from wf have "wf_bus (snd (EVENT_Unsubscribe ty cb a s))" by (rule wf_bus_Unsubscribe)
    from EVENT_Unsubscribe_absent [OF this none] ok show ?thesis by simp
  qed
  have c1: "EVENT_call fuel env c s = Some (r, s', t) \<longrightarrow> r < 0 \<longrightarrow> s' = s \<and> t = []"
    using EVENT_call_error [of fuel env c s r s' t] by blast
  have c2: "fst (EVENT_Publish ty p d n now s) \<noteq> 0 \<longrightarrow> EVENT_Publish ty p d n now s = (- 1, s)"
    using EVENT_Publish_fail [of ty p d n now s] by blast
  have c3: "wf_bus s \<longrightarrow> registrations s ty cb a = 0 \<longrightarrow> EVENT_Unsubscribe ty cb a s = (- 1, s)"
    using EVENT_Unsubscribe_absent [of s ty cb a] by blast
  note c4 = EVENT_Unsubscribe_present [of s ty cb a]
  note c6 = EVENT_Unsubscribe_exact [of s ty cb a]
  note c7 = EVENT_Unsubscribe_ok_iff [of s ty cb a]
  note c8 = EVENT_Unsubscribe_twice_iff [of s ty cb a]
  show ?thesis
    by (intro conjI impI c1 [rule_format] c2 [rule_format] c3 [rule_format]
        c4 [THEN conjunct1] c4 [THEN conjunct2] twice [THEN conjunct1] twice [THEN conjunct2]
        c6 [THEN conjunct1] c6 [THEN conjunct2, THEN conjunct1]
        c6 [THEN conjunct2, THEN conjunct2, THEN conjunct1]
        c6 [THEN conjunct2, THEN conjunct2, THEN conjunct2] c7 c8) assumption+
qed

lemma demo_bus_registrations:
  "registrations demo_bus 1 11 0 = 1" "registrations demo_bus 1 12 0 = 0"
  by code_simp+

lemma dup_bus_facts:
  "wf_bus dup_bus" "g_initialized dup_bus" "registrations dup_bus 2 7 0 = 2"
  "first_match 7 0 (g_subscribers dup_bus ! unat (2 :: u16)) = 0"
  by code_simp+

theorem error_atomicity_witness:
  "EVENT_call 0 quiet (Publish 40 0 None 0 0) demo_bus = Some (- 1, demo_bus, []) \<and>
   EVENT_Publish 40 0 None 0 0 demo_bus = (- 1, demo_bus) \<and>
   EVENT_Unsubscribe 1 12 0 demo_bus = (- 1, demo_bus) \<and>
   fst (EVENT_Unsubscribe 1 11 0 demo_bus) = 0 \<and>
   EVENT_Unsubscribe 1 11 0 (snd (EVENT_Unsubscribe 1 11 0 demo_bus)) =
     (- 1, snd (EVENT_Unsubscribe 1 11 0 demo_bus)) \<and>
   EVENT_Unsubscribe 2 7 0 dup_bus =
     (0, dup_bus\<lparr>g_subscribers := (g_subscribers dup_bus)
           [unat (2 :: u16) := (g_subscribers dup_bus ! unat (2 :: u16))
              [0 := (g_subscribers dup_bus ! unat (2 :: u16) ! 0)\<lparr>used := False\<rparr>]]\<rparr>) \<and>
   registrations (snd (EVENT_Unsubscribe 2 7 0 dup_bus)) 2 7 0 = 1"
proof -
  have ty: "unat (1 :: u16) < EVENT_MAX_COUNT" by (simp add: cfg)
  have ty2: "unat (2 :: u16) < EVENT_MAX_COUNT" by (simp add: cfg)
  have bad: "fst (EVENT_Publish 40 0 None 0 0 demo_bus) = - 1"
    by (simp add: EVENT_Publish_def cfg)
  have call: "EVENT_call 0 quiet (Publish 40 0 None 0 0) demo_bus =
      Some (- 1, snd (EVENT_Publish 40 0 None 0 0 demo_bus), [])"
    using bad by (simp add: EVENT_call_def api_step_def)
  note T = error_atomicity [where s = demo_bus and a = 0]
  from T [where fuel = 0 and env = quiet and c = "Publish 40 0 None 0 0" and r = "- 1" and ty = 1
      and s' = "snd (EVENT_Publish 40 0 None 0 0 demo_bus)" and t = "[]"] call
  have a: "EVENT_call 0 quiet (Publish 40 0 None 0 0) demo_bus = Some (- 1, demo_bus, [])"
    by simp
  from T [where p = 0 and d = None and n = 0 and now = 0 and ty = 40] bad
  have a': "EVENT_Publish 40 0 None 0 0 demo_bus = (- 1, demo_bus)" by simp
  from T [where cb = 12 and ty = 1] demo_bus_wf demo_bus_registrations(2)
  have b: "EVENT_Unsubscribe 1 12 0 demo_bus = (- 1, demo_bus)" by blast
  have nz: "(11 :: nat) \<noteq> 0" by simp
  from T [where cb = 11 and ty = 1] demo_bus_wf demo_bus_initialized ty nz demo_bus_registrations(1)
  have c: "fst (EVENT_Unsubscribe 1 11 0 demo_bus) = 0 \<and>
     EVENT_Unsubscribe 1 11 0 (snd (EVENT_Unsubscribe 1 11 0 demo_bus)) =
       (- 1, snd (EVENT_Unsubscribe 1 11 0 demo_bus))" by blast
  have nz7: "(7 :: nat) \<noteq> 0" by simp
  have pos: "0 < registrations dup_bus 2 7 0" by (simp add: dup_bus_facts(3))
  note D = error_atomicity [where s = dup_bus and a = 0 and cb = 7 and ty = 2]
  from D dup_bus_facts(1,2) ty2 nz7 pos
  have d: "EVENT_Unsubscribe 2 7 0 dup_bus =
     (0, dup_bus\<lparr>g_subscribers := (g_subscribers dup_bus)
           [unat (2 :: u16) := (g_subscribers dup_bus ! unat (2 :: u16))
              [first_match 7 0 (g_subscribers dup_bus ! unat (2 :: u16)) :=
                 (g_subscribers dup_bus ! unat (2 :: u16) !
                    first_match 7 0 (g_subscribers dup_bus ! unat (2 :: u16)))\<lparr>used := False\<rparr>]]\<rparr>)"
    by blast
  from D dup_bus_facts(1,2) ty2 nz7 pos
  have e: "registrations (snd (EVENT_Unsubscribe 2 7 0 dup_bus)) 2 7 0 =
      registrations dup_bus 2 7 0 - 1" by blast
  from a a' b c d e show ?thesis
    by (simp only: dup_bus_facts(3,4)) simp
qed

text \<open>
  The claim as written fails where the same pair has been subscribed twice: both of two
  consecutive identical unsubscribe calls succeed, each removing one registration.
\<close>

theorem unsubscribe_twice_counterexample:
  "registrations dup_bus 2 7 0 = 2 \<and>
   fst (EVENT_Unsubscribe 2 7 0 dup_bus) = 0 \<and>
   fst (EVENT_Unsubscribe 2 7 0 (snd (EVENT_Unsubscribe 2 7 0 dup_bus))) = 0"
  by code_simp

section \<open>Registry changes made during dispatch\<close>

lemma subscriber_loop_append:
  "subscriber_loop proc env e (xs @ ys) s =
     (case subscriber_loop proc env e xs s of
        None \<Rightarrow> None
      | Some (s1, t1) \<Rightarrow>
          (case subscriber_loop proc env e ys s1 of
             None \<Rightarrow> None
           | Some (s2, t2) \<Rightarrow> Some (s2, t1 @ t2)))"
  by (induction xs arbitrary: s) (auto simp: Let_def split: option.splits)

lemma observer_loop_append:
  "observer_loop proc env e (xs @ ys) s =
     (case observer_loop proc env e xs s of
        None \<Rightarrow> None
      | Some (s1, t1) \<Rightarrow>
          (case observer_loop proc env e ys s1 of
             None \<Rightarrow> None
           | Some (s2, t2) \<Rightarrow> Some (s2, t1 @ t2)))"
  by (induction xs arbitrary: s) (auto simp: Let_def split: option.splits)

lemma registry_call_plain: "registry_call c \<Longrightarrow> c \<noteq> Process"
  by (cases c) simp_all

lemma registry_call_g_queue: "registry_call c \<Longrightarrow> g_queue (snd (plain_step c s)) = g_queue s"
  by (cases c) (simp_all add: plain_step_simps g_queue_Subscribe g_queue_Unsubscribe
      g_queue_RegisterObserver g_queue_UnregisterObserver)

lemma after_calls_g_queue:
  "list_all registry_call cs \<Longrightarrow> g_queue (after_calls cs s) = g_queue s"
  by (induction cs arbitrary: s) (simp_all add: registry_call_g_queue)

lemma run_calls_registry:
  "list_all registry_call cs \<Longrightarrow> run_calls proc cs s = Some (after_calls cs s, [])"
  by (induction cs arbitrary: s) (simp_all add: api_step_plain registry_call_plain)

lemma invoke_registry:
  "list_all registry_call (env (callback sl) (queue (g_queue s) ! e) (arg sl)) \<Longrightarrow>
     invoke proc env sl e s =
       Some (after_calls (env (callback sl) (queue (g_queue s) ! e) (arg sl)) s,
             [slot_call (queue (g_queue s) ! e) sl])"
  by (simp add: invoke_def Let_def run_calls_registry slot_call_def)

lemma upt_split3: "i < n \<Longrightarrow> [0..<n] = [0..<i] @ [i] @ [Suc i..<n]"
  by (metis append_Cons append_Nil le_add1 less_imp_add_positive upt_add_eq_append
      upt_conv_Cons plus_nat.add_0 less_or_eq_imp_le)

lemma dispatch_subscriber_change:
  assumes i: "i < EVENT_SUBSCRIBER_MAX"
    and ev: "ev = queue (g_queue s) ! e"
    and row: "row = g_subscribers s ! unat (type ev)"
    and u: "used (row ! i)"
    and cs: "cs = env (callback (row ! i)) ev (arg (row ! i))"
    and reg: "list_all registry_call cs"
    and s1: "s1 = after_calls cs s"
    and row1: "row1 = g_subscribers s1 ! unat (type ev)"
    and before: "\<forall>j\<in>set [0..<i]. used (row ! j) \<longrightarrow> env (callback (row ! j)) ev (arg (row ! j)) = []"
    and after: "\<forall>j\<in>set [Suc i..<EVENT_SUBSCRIBER_MAX].
        used (row1 ! j) \<longrightarrow> env (callback (row1 ! j)) ev (arg (row1 ! j)) = []"
    and obs: "\<forall>j\<in>set [0..<EVENT_OBSERVER_MAX]. used (g_observers s1 ! j) \<longrightarrow>
        env (callback (g_observers s1 ! j)) ev (arg (g_observers s1 ! j)) = []"
  shows "dispatch_event proc env e s =
     Some (s1,
       map (\<lambda>j. slot_call ev (row ! j)) (filter (\<lambda>j. used (row ! j)) [0..<Suc i]) @
       map (\<lambda>j. slot_call ev (row1 ! j))
         (filter (\<lambda>j. used (row1 ! j)) [Suc i..<EVENT_SUBSCRIBER_MAX]) @
       map (\<lambda>j. slot_call ev (g_observers s1 ! j))
         (filter (\<lambda>j. used (g_observers s1 ! j)) [0..<EVENT_OBSERVER_MAX]))"
proof -
  have q1: "g_queue s1 = g_queue s" using reg by (simp add: s1 after_calls_g_queue)
  then have ev1: "queue (g_queue s1) ! e = ev" by (simp add: ev)
  have a: "subscriber_loop proc env e [0..<i] s =
      Some (s, map (\<lambda>j. slot_call ev (row ! j)) (filter (\<lambda>j. used (row ! j)) [0..<i]))"
    using subscriber_loop_silent [of "[0..<i]" s e env proc] before
    by (simp add: ev [symmetric] row [symmetric])
  have b: "invoke proc env (row ! i) e s = Some (s1, [slot_call ev (row ! i)])"
    using invoke_registry [of env "row ! i" s e proc] reg
    by (simp add: ev [symmetric] cs [symmetric] s1 [symmetric])
  have c: "subscriber_loop proc env e [Suc i..<EVENT_SUBSCRIBER_MAX] s1 =
      Some (s1, map (\<lambda>j. slot_call ev (row1 ! j))
                  (filter (\<lambda>j. used (row1 ! j)) [Suc i..<EVENT_SUBSCRIBER_MAX]))"
    using subscriber_loop_silent [of "[Suc i..<EVENT_SUBSCRIBER_MAX]" s1 e env proc] after
    by (simp add: ev1 row1 [symmetric])
  have d: "observer_loop proc env e [0..<EVENT_OBSERVER_MAX] s1 =
      Some (s1, map (\<lambda>j. slot_call ev (g_observers s1 ! j))
                  (filter (\<lambda>j. used (g_observers s1 ! j)) [0..<EVENT_OBSERVER_MAX]))"
    using observer_loop_silent [of "[0..<EVENT_OBSERVER_MAX]" s1 env e proc] obs
    by (simp add: ev1)
  have one: "subscriber_loop proc env e [i] s = Some (s1, [slot_call ev (row ! i)])"
    using u b by (simp add: ev [symmetric] row [symmetric])
  have loop: "subscriber_loop proc env e [0..<EVENT_SUBSCRIBER_MAX] s =
      Some (s1, map (\<lambda>j. slot_call ev (row ! j)) (filter (\<lambda>j. used (row ! j)) [0..<Suc i]) @
                map (\<lambda>j. slot_call ev (row1 ! j))
                  (filter (\<lambda>j. used (row1 ! j)) [Suc i..<EVENT_SUBSCRIBER_MAX]))"
    unfolding upt_split3 [OF i] subscriber_loop_append
    using u by (simp add: a one c del: subscriber_loop.simps upt_Suc) simp
  show ?thesis
    by (simp add: dispatch_event_def loop d del: upt_Suc)
qed

lemma dispatch_observer_change:
  assumes i: "i < EVENT_OBSERVER_MAX"
    and ev: "ev = queue (g_queue s) ! e"
    and row: "row = g_subscribers s ! unat (type ev)"
    and u: "used (g_observers s ! i)"
    and cs: "cs = env (callback (g_observers s ! i)) ev (arg (g_observers s ! i))"
    and reg: "list_all registry_call cs"
    and s1: "s1 = after_calls cs s"
    and subs: "\<forall>j\<in>set [0..<EVENT_SUBSCRIBER_MAX].
        used (row ! j) \<longrightarrow> env (callback (row ! j)) ev (arg (row ! j)) = []"
    and before: "\<forall>j\<in>set [0..<i]. used (g_observers s ! j) \<longrightarrow>
        env (callback (g_observers s ! j)) ev (arg (g_observers s ! j)) = []"
    and after: "\<forall>j\<in>set [Suc i..<EVENT_OBSERVER_MAX]. used (g_observers s1 ! j) \<longrightarrow>
        env (callback (g_observers s1 ! j)) ev (arg (g_observers s1 ! j)) = []"
  shows "dispatch_event proc env e s =
     Some (s1,
       map (\<lambda>j. slot_call ev (row ! j)) (filter (\<lambda>j. used (row ! j)) [0..<EVENT_SUBSCRIBER_MAX]) @
       map (\<lambda>j. slot_call ev (g_observers s ! j))
         (filter (\<lambda>j. used (g_observers s ! j)) [0..<Suc i]) @
       map (\<lambda>j. slot_call ev (g_observers s1 ! j))
         (filter (\<lambda>j. used (g_observers s1 ! j)) [Suc i..<EVENT_OBSERVER_MAX]))"
proof -
  have q1: "g_queue s1 = g_queue s" using reg by (simp add: s1 after_calls_g_queue)
  then have ev1: "queue (g_queue s1) ! e = ev" by (simp add: ev)
  have a: "subscriber_loop proc env e [0..<EVENT_SUBSCRIBER_MAX] s =
      Some (s, map (\<lambda>j. slot_call ev (row ! j))
                 (filter (\<lambda>j. used (row ! j)) [0..<EVENT_SUBSCRIBER_MAX]))"
    using subscriber_loop_silent [of "[0..<EVENT_SUBSCRIBER_MAX]" s e env proc] subs
    by (simp add: ev [symmetric] row [symmetric])
  have b: "observer_loop proc env e [0..<i] s =
      Some (s, map (\<lambda>j. slot_call ev (g_observers s ! j))
                 (filter (\<lambda>j. used (g_observers s ! j)) [0..<i]))"
    using observer_loop_silent [of "[0..<i]" s env e proc] before
    by (simp add: ev [symmetric])
  have c: "invoke proc env (g_observers s ! i) e s = Some (s1, [slot_call ev (g_observers s ! i)])"
    using invoke_registry [of env "g_observers s ! i" s e proc] reg
    by (simp add: ev [symmetric] cs [symmetric] s1 [symmetric])
  have one: "observer_loop proc env e [i] s = Some (s1, [slot_call ev (g_observers s ! i)])"
    using u c by simp
  have d: "observer_loop proc env e [Suc i..<EVENT_OBSERVER_MAX] s1 =
      Some (s1, map (\<lambda>j. slot_call ev (g_observers s1 ! j))
                  (filter (\<lambda>j. used (g_observers s1 ! j)) [Suc i..<EVENT_OBSERVER_MAX]))"
    using observer_loop_silent [of "[Suc i..<EVENT_OBSERVER_MAX]" s1 env e proc] after
    by (simp add: ev1)
  have loop: "observer_loop proc env e [0..<EVENT_OBSERVER_MAX] s =
      Some (s1, map (\<lambda>j. slot_call ev (g_observers s ! j))
                  (filter (\<lambda>j. used (g_observers s ! j)) [0..<Suc i]) @
                map (\<lambda>j. slot_call ev (g_observers s1 ! j))
                  (filter (\<lambda>j. used (g_observers s1 ! j)) [Suc i..<EVENT_OBSERVER_MAX]))"
    unfolding upt_split3 [OF i] observer_loop_append
    using u by (simp add: b one d del: observer_loop.simps upt_Suc) simp
  show ?thesis
    by (simp add: dispatch_event_def a loop del: upt_Suc)
qed

text \<open>
  Claim C4, as the code has it. \<^verbatim>\<open>dispatch_event\<close> takes no snapshot: each loop iteration
  reads its slot from the registry as it is at that moment. When the handler in
  subscriber slot \<open>i\<close> (resp. observer slot \<open>k\<close>) subscribes, unsubscribes, registers or
  unregisters, and the other handlers called do not call back into the bus, then the
  slots visited up to and including that one are called as the registry was before, the
  slots visited after it (the later subscriber slots of the type and all observer slots,
  resp. the later observer slots) are called as the registry is after the change, and
  the state the dispatch leaves for the records popped next is the changed one. So a
  change takes effect at once: it never alters the calls already made for the in-flight
  record, but it does alter the rest of that record's fan-out.
\<close>

theorem registry_change_during_dispatch:
  assumes "ev = queue (g_queue s) ! e" and "row = g_subscribers s ! unat (type ev)"
    and "list_all registry_call cs" and "s1 = after_calls cs s"
    and "row1 = g_subscribers s1 ! unat (type ev)"
  shows
    "(i < EVENT_SUBSCRIBER_MAX \<and> used (row ! i) \<and>
      cs = env (callback (row ! i)) ev (arg (row ! i)) \<and>
      (\<forall>j\<in>set [0..<i]. used (row ! j) \<longrightarrow> env (callback (row ! j)) ev (arg (row ! j)) = []) \<and>
      (\<forall>j\<in>set [Suc i..<EVENT_SUBSCRIBER_MAX].
         used (row1 ! j) \<longrightarrow> env (callback (row1 ! j)) ev (arg (row1 ! j)) = []) \<and>
      (\<forall>j\<in>set [0..<EVENT_OBSERVER_MAX]. used (g_observers s1 ! j) \<longrightarrow>
         env (callback (g_observers s1 ! j)) ev (arg (g_observers s1 ! j)) = [])
      \<longrightarrow>
      dispatch_event proc env e s =
        Some (s1,
          map (\<lambda>j. slot_call ev (row ! j)) (filter (\<lambda>j. used (row ! j)) [0..<Suc i]) @
          map (\<lambda>j. slot_call ev (row1 ! j))
            (filter (\<lambda>j. used (row1 ! j)) [Suc i..<EVENT_SUBSCRIBER_MAX]) @
          map (\<lambda>j. slot_call ev (g_observers s1 ! j))
            (filter (\<lambda>j. used (g_observers s1 ! j)) [0..<EVENT_OBSERVER_MAX]))) \<and>
     (k < EVENT_OBSERVER_MAX \<and> used (g_observers s ! k) \<and>
      cs = env (callback (g_observers s ! k)) ev (arg (g_observers s ! k)) \<and>
      (\<forall>j\<in>set [0..<EVENT_SUBSCRIBER_MAX].
         used (row ! j) \<longrightarrow> env (callback (row ! j)) ev (arg (row ! j)) = []) \<and>
      (\<forall>j\<in>set [0..<k]. used (g_observers s ! j) \<longrightarrow>
         env (callback (g_observers s ! j)) ev (arg (g_observers s ! j)) = []) \<and>
      (\<forall>j\<in>set [Suc k..<EVENT_OBSERVER_MAX]. used (g_observers s1 ! j) \<longrightarrow>
         env (callback (g_observers s1 ! j)) ev (arg (g_observers s1 ! j)) = [])
      \<longrightarrow>
      dispatch_event proc env e s =
        Some (s1,
          map (\<lambda>j. slot_call ev (row ! j))
            (filter (\<lambda>j. used (row ! j)) [0..<EVENT_SUBSCRIBER_MAX]) @
          map (\<lambda>j. slot_call ev (g_observers s ! j))
            (filter (\<lambda>j. used (g_observers s ! j)) [0..<Suc k]) @
          map (\<lambda>j. slot_call ev (g_observers s1 ! j))
            (filter (\<lambda>j. used (g_observers s1 ! j)) [Suc k..<EVENT_OBSERVER_MAX])))"
proof (intro conjI impI)
  assume "i < EVENT_SUBSCRIBER_MAX \<and> used (row ! i) \<and>
      cs = env (callback (row ! i)) ev (arg (row ! i)) \<and>
      (\<forall>j\<in>set [0..<i]. used (row ! j) \<longrightarrow> env (callback (row ! j)) ev (arg (row ! j)) = []) \<and>
      (\<forall>j\<in>set [Suc i..<EVENT_SUBSCRIBER_MAX].
         used (row1 ! j) \<longrightarrow> env (callback (row1 ! j)) ev (arg (row1 ! j)) = []) \<and>
      (\<forall>j\<in>set [0..<EVENT_OBSERVER_MAX]. used (g_observers s1 ! j) \<longrightarrow>
         env (callback (g_observers s1 ! j)) ev (arg (g_observers s1 ! j)) = [])"
  then show "dispatch_event proc env e s =
        Some (s1,
          map (\<lambda>j. slot_call ev (row ! j)) (filter (\<lambda>j. used (row ! j)) [0..<Suc i]) @
          map (\<lambda>j. slot_call ev (row1 ! j))
            (filter (\<lambda>j. used (row1 ! j)) [Suc i..<EVENT_SUBSCRIBER_MAX]) @
          map (\<lambda>j. slot_call ev (g_observers s1 ! j))
            (filter (\<lambda>j. used (g_observers s1 ! j)) [0..<EVENT_OBSERVER_MAX]))"
    using assms by (intro dispatch_subscriber_change) blast+
next
  assume "k < EVENT_OBSERVER_MAX \<and> used (g_observers s ! k) \<and>
      cs = env (callback (g_observers s ! k)) ev (arg (g_observers s ! k)) \<and>
      (\<forall>j\<in>set [0..<EVENT_SUBSCRIBER_MAX].
         used (row ! j) \<longrightarrow> env (callback (row ! j)) ev (arg (row ! j)) = []) \<and>
      (\<forall>j\<in>set [0..<k]. used (g_observers s ! j) \<longrightarrow>
         env (callback (g_observers s ! j)) ev (arg (g_observers s ! j)) = []) \<and>
      (\<forall>j\<in>set [Suc k..<EVENT_OBSERVER_MAX]. used (g_observers s1 ! j) \<longrightarrow>
         env (callback (g_observers s1 ! j)) ev (arg (g_observers s1 ! j)) = [])"
  then show "dispatch_event proc env e s =
        Some (s1,
          map (\<lambda>j. slot_call ev (row ! j))
            (filter (\<lambda>j. used (row ! j)) [0..<EVENT_SUBSCRIBER_MAX]) @
          map (\<lambda>j. slot_call ev (g_observers s ! j))
            (filter (\<lambda>j. used (g_observers s ! j)) [0..<Suc k]) @
          map (\<lambda>j. slot_call ev (g_observers s1 ! j))
            (filter (\<lambda>j. used (g_observers s1 ! j)) [Suc k..<EVENT_OBSERVER_MAX]))"
    using assms by (intro dispatch_observer_change) blast+
qed

theorem registry_change_during_dispatch_witness:
  "dispatch_event (\<lambda>_. None) remover 0 pair_bus =
     Some (after_calls [Unsubscribe 1 12 0] pair_bus, [(11, make_event 1 0 None 0 0, 0)]) \<and>
   dispatch_event (\<lambda>_. None) adder 0 single_bus =
     Some (after_calls [Subscribe 1 13 0] single_bus,
           [(11, make_event 1 0 None 0 0, 0), (13, make_event 1 0 None 0 0, 0)]) \<and>
   dispatch_event (\<lambda>_. None) dropper 0 demo_bus1 =
     Some (after_calls [Unsubscribe 1 11 0] demo_bus1,
           [(11, make_event 1 2 None 0 7, 0), (99, make_event 1 2 None 0 7, 0)])"
proof (intro conjI)
  have reg: "list_all registry_call [Unsubscribe 1 12 0]" by simp
  note T = registry_change_during_dispatch [where s = pair_bus and e = 0 and env = remover
      and cs = "[Unsubscribe 1 12 0]" and i = 0 and proc = "\<lambda>_. None",
      OF refl refl reg refl refl, THEN conjunct1, THEN mp]
  show "dispatch_event (\<lambda>_. None) remover 0 pair_bus =
     Some (after_calls [Unsubscribe 1 12 0] pair_bus, [(11, make_event 1 0 None 0 0, 0)])"
    apply (rule trans [OF T])
     apply code_simp
    apply code_simp
    done
next
  have reg: "list_all registry_call [Subscribe 1 13 0]" by simp
  note T = registry_change_during_dispatch [where s = single_bus and e = 0 and env = adder
      and cs = "[Subscribe 1 13 0]" and i = 0 and proc = "\<lambda>_. None",
      OF refl refl reg refl refl, THEN conjunct1, THEN mp]
  show "dispatch_event (\<lambda>_. None) adder 0 single_bus =
     Some (after_calls [Subscribe 1 13 0] single_bus,
           [(11, make_event 1 0 None 0 0, 0), (13, make_event 1 0 None 0 0, 0)])"
    apply (rule trans [OF T])
     apply code_simp
    apply code_simp
    done
next
  have reg: "list_all registry_call [Unsubscribe 1 11 0]" by simp
  note T = registry_change_during_dispatch [where s = demo_bus1 and e = 0 and env = dropper
      and cs = "[Unsubscribe 1 11 0]" and k = 0 and proc = "\<lambda>_. None",
      OF refl refl reg refl refl, THEN conjunct2, THEN mp]
  show "dispatch_event (\<lambda>_. None) dropper 0 demo_bus1 =
     Some (after_calls [Unsubscribe 1 11 0] demo_bus1,
           [(11, make_event 1 2 None 0 7, 0), (99, make_event 1 2 None 0 7, 0)])"
    apply (rule trans [OF T])
     apply code_simp
    apply code_simp
    done
qed

text \<open>
  The claim as written fails: on a bus with callbacks 11 and 12 subscribed to the type
  of the pending record, both are active when the record's dispatch starts, yet 12 is
  never called for it once 11 has unsubscribed it; and a callback that 11 subscribes
  while it runs is called for the record that was already in flight.
\<close>

theorem registry_snapshot_counterexample:
  "map fst (fanout pair_bus (queue (g_queue pair_bus) ! 0)) = [11, 12] \<and>
   map_option (\<lambda>(r, s, t). (r, map fst t)) (EVENT_Process 2 remover pair_bus) = Some (1, [11]) \<and>
   map fst (fanout single_bus (queue (g_queue single_bus) ! 0)) = [11] \<and>
   map_option (\<lambda>(r, s, t). (r, map fst t)) (EVENT_Process 2 adder single_bus) = Some (1, [11, 13])"
  by code_simp

section \<open>Reachable states\<close>

text \<open>
  The well-formedness and the queue invariant that the theorems above assume hold of every
  state the application can reach from the zeroed start state by public calls, for any
  handlers.
\<close>

lemma EVENT_call_wf_bus:
  assumes "wf_bus s" and "EVENT_call fuel env c s = Some (r, s', t)"
  shows "wf_bus s'"
proof (cases "c = Process")
  case True
  with assms(2) have "EVENT_Process fuel env s = Some (r, s', t)"
    by (simp add: EVENT_call_def)
  with assms(1) show ?thesis
    by (auto simp: EVENT_Process_def split: if_splits dest: process_loop_wf_bus)
next
  case False
  with assms(2) have "s' = snd (plain_step c s)"
    by (simp add: EVENT_call_def api_step_plain)
  with assms(1) show ?thesis by (simp add: plain_step_wf_bus)
qed

lemma EVENT_call_queue_inv:
  assumes "queue_inv (g_queue s)" and "EVENT_call fuel env c s = Some (r, s', t)"
  shows "queue_inv (g_queue s')"
proof (cases "c = Process")
  case True
  with assms(2) have "EVENT_Process fuel env s = Some (r, s', t)"
    by (simp add: EVENT_call_def)
  with assms(1) show ?thesis
    by (auto simp: EVENT_Process_def split: if_splits dest: process_loop_queue_inv)
next
  case False
  with assms(2) have "s' = snd (plain_step c s)"
    by (simp add: EVENT_call_def api_step_plain)
  with assms(1) show ?thesis by (simp add: plain_step_queue_inv)
qed

lemma EVENT_calls_invariants:
  "wf_bus s \<Longrightarrow> queue_inv (g_queue s) \<Longrightarrow> EVENT_calls fuel env cs s = Some (rs, s', t) \<Longrightarrow>
     wf_bus s' \<and> queue_inv (g_queue s')"
proof (induction cs arbitrary: s rs t)
  case Nil
  then show ?case by simp
next
  case (Cons c cs)
  from Cons.prems(3) obtain r s1 t1 rs2 t2 where
    a: "EVENT_call fuel env c s = Some (r, s1, t1)"
    and b: "EVENT_calls fuel env cs s1 = Some (rs2, s', t2)"
    by (auto split: option.splits)
  from EVENT_call_wf_bus [OF Cons.prems(1) a] EVENT_call_queue_inv [OF Cons.prems(2) a] b
  show ?case by (rule Cons.IH)
qed

lemma reachable_invariants:
  "EVENT_calls fuel env cs bus0 = Some (rs, s, t) \<Longrightarrow> wf_bus s \<and> queue_inv (g_queue s)"
  by (rule EVENT_calls_invariants [OF wf_bus0]) (simp_all add: bus0_def queue_init_inv)

end
